theory Spec2Isabelle
  imports Main "HOL-Library.Sublist" "HOL-Library.Multiset"
begin

section \<open>JavaScript strings\<close>

text \<open>
  A JavaScript string is a sequence of UTF-16 code units; \<open>length\<close>, \<open>split\<close>, \<open>trim\<close>
  and the regular expressions of the sources (none has the \<open>u\<close> flag) all work on code
  units. A code unit is modelled as a natural number, so that the Cyrillic text of the
  step format (\<open>0x0428 0x0430 0x0433\<close> for the word in front of the step number) can be
  written down. ASCII literals are written \<open>ascii ''...''\<close>.
\<close>

type_synonym jsstring = "nat list"

definition ascii :: "string \<Rightarrow> jsstring" where
  "ascii s = map of_char s"

text \<open>
  \<open>isWhiteSpace\<close> is the class \<open>\s\<close> of a regular expression, which is also the set of
  code units that \<open>String.prototype.trim\<close> removes (WhiteSpace and LineTerminator of
  the language standard). \<open>isLineTerminator\<close> is the set that \<open>.\<close> does not match.
  \<open>isDigit\<close> is the class \<open>\d\<close>.
\<close>

definition isWhiteSpace :: "nat \<Rightarrow> bool" where
  "isWhiteSpace c \<longleftrightarrow>
     (9 \<le> c \<and> c \<le> 13) \<or> c = 32 \<or> c = 160 \<or> c = 5760 \<or> (8192 \<le> c \<and> c \<le> 8202)
     \<or> c = 8232 \<or> c = 8233 \<or> c = 8239 \<or> c = 8287 \<or> c = 12288 \<or> c = 65279"

definition isLineTerminator :: "nat \<Rightarrow> bool" where
  "isLineTerminator c \<longleftrightarrow> c = 10 \<or> c = 13 \<or> c = 8232 \<or> c = 8233"

definition isDigit :: "nat \<Rightarrow> bool" where
  "isDigit c \<longleftrightarrow> 48 \<le> c \<and> c \<le> 57"

definition trim :: "jsstring \<Rightarrow> jsstring" where
  "trim s = rev (dropWhile isWhiteSpace (rev (dropWhile isWhiteSpace s)))"

text \<open>\<open>s.split(c)\<close> for a separator of one code unit; the empty string gives one empty piece.\<close>

fun split :: "nat \<Rightarrow> jsstring \<Rightarrow> jsstring list" where
  "split sep [] = [[]]"
| "split sep (c # cs) =
     (if c = sep then [] # split sep cs
      else (case split sep cs of [] \<Rightarrow> [[c]] | p # ps \<Rightarrow> (c # p) # ps))"

text \<open>\<open>s.includes(c)\<close> for a string \<open>c\<close> of one code unit.\<close>

definition includesChar :: "jsstring \<Rightarrow> nat \<Rightarrow> bool" where
  "includesChar s c \<longleftrightarrow> c \<in> set s"

text \<open>
  The chain \<open>.split(c).filter(Boolean).map(s => s.trim()).filter(s => s.length > 0)\<close>
  that the sources use for every single-character split; \<open>filter(Boolean)\<close> drops the
  empty strings.
\<close>

definition splitTrim :: "nat \<Rightarrow> jsstring \<Rightarrow> jsstring list" where
  "splitTrim sep s =
     filter (\<lambda>p. length p > 0) (map trim (filter (\<lambda>p. p \<noteq> []) (split sep s)))"

text \<open>
  Template literals print an array index in decimal: \<open>showNat\<close> is \<open>String(n)\<close> for a
  non-negative integer \<open>n\<close>.
\<close>

function showNat :: "nat \<Rightarrow> jsstring" where
  "showNat n = (if n < 10 then [48 + n] else showNat (n div 10) @ [48 + n mod 10])"
  by pat_completeness auto
termination
  by (relation "measure (\<lambda>n. n)") auto

declare showNat.simps [simp del]

section \<open>Cleaning of steps\<close>

text \<open>
  \<open>step.replace(/```mermaid|```/g, '')\<close>: every match, found from left to right, is
  removed; at each position the longer alternative is tried first.
\<close>

definition fence :: jsstring where
  "fence = [96, 96, 96]"

definition fenceMermaid :: jsstring where
  "fenceMermaid = [96, 96, 96, 109, 101, 114, 109, 97, 105, 100]"

fun stripFences :: "jsstring \<Rightarrow> jsstring" where
  "stripFences [] = []"
| "stripFences (c # cs) =
     (if prefix fenceMermaid (c # cs) then stripFences (drop 9 cs)
      else if prefix fence (c # cs) then stripFences (drop 2 cs)
      else c # stripFences cs)"

text \<open>
  Matching of an ASCII letter under the \<open>i\<close> flag (without \<open>u\<close>): a pattern letter,
  given in lower case, matches its lower-case and its upper-case code unit and nothing
  else (the standard's Canonicalize never maps a code unit above 127 to one below 128).
\<close>

definition ciLetter :: "nat \<Rightarrow> nat \<Rightarrow> bool" where
  "ciLetter p c \<longleftrightarrow> c = p \<or> c + 32 = p"

fun matchLetters :: "jsstring \<Rightarrow> jsstring \<Rightarrow> jsstring option" where
  "matchLetters [] s = Some s"
| "matchLetters (p # ps) [] = None"
| "matchLetters (p # ps) (c # cs) = (if ciLetter p c then matchLetters ps cs else None)"

text \<open>
  \<open>/graph\s+TD/i\<close> and \<open>/graph\s+LR/i\<close> at the start of \<open>s\<close>: the word, at least one
  white space (the greedy \<open>\s+\<close> takes them all, and what follows is a letter), the two
  letters \<open>dir\<close>. The result is the text after the match.
\<close>

definition matchGraph :: "jsstring \<Rightarrow> jsstring \<Rightarrow> jsstring option" where
  "matchGraph dir s =
     (case matchLetters (ascii ''graph'') s of
        None \<Rightarrow> None
      | Some r \<Rightarrow>
          (case r of
             [] \<Rightarrow> None
           | w # ws \<Rightarrow> if isWhiteSpace w then matchLetters dir (dropWhile isWhiteSpace ws)
                       else None))"

text \<open>\<open>s.replace(re, '')\<close> without the \<open>g\<close> flag removes the leftmost match only.\<close>

fun removeFirstGraph :: "jsstring \<Rightarrow> jsstring \<Rightarrow> jsstring" where
  "removeFirstGraph dir [] = []"
| "removeFirstGraph dir (c # cs) =
     (case matchGraph dir (c # cs) of
        Some rest \<Rightarrow> rest
      | None \<Rightarrow> c # removeFirstGraph dir cs)"

definition cleanStep :: "jsstring \<Rightarrow> jsstring" where
  "cleanStep step =
     trim (removeFirstGraph (ascii ''lr'') (removeFirstGraph (ascii ''td'') (stripFences step)))"

definition processedSteps :: "jsstring list \<Rightarrow> jsstring list" where
  "processedSteps steps = filter (\<lambda>step. length step > 0) (map cleanStep steps)"

section \<open>The diagram state of the two variants built on the diagram library\<close>

text \<open>
  Two of the three variants keep the diagram as a list of nodes and a list of edges in
  component state: the variant with editable and deletable nodes (first file of
  \<open>unnamed/part_000\<close>, \<open>Editable\<close> below) and the simplified one (\<open>src/App.tsx\<close>,
  \<open>Simple\<close> below). Of a node the model keeps its id, its position and its label; of an
  edge its id, source and target. The remaining fields (type, style, marker, the
  \<open>onEdit\<close>/\<open>onDelete\<close> closures) are constants or handlers and carry no data of
  their own. Coordinates are JavaScript numbers; every one computed here is a small
  non-negative integer, hence exact.
\<close>

datatype variant = Editable | Simple

record point =
  x_of :: int
  y_of :: int

record node =
  node_id :: jsstring
  position :: point
  label :: jsstring

record edge =
  edge_id :: jsstring
  source :: jsstring
  target :: jsstring

datatype role = User | Assistant

record chatMessage =
  role :: role
  content :: jsstring

datatype modelType = Gemini | Ollama

text \<open>
  The component state. The part that all three variants have is the record \<open>ui\<close>; the
  two variants built on the diagram library add the diagram. \<open>fetches\<close> is not a
  variable of the program: it counts the calls of \<open>fetch\<close>, so that "no model call" can
  be stated.
\<close>

record ui =
  chatHistory :: "chatMessage list"
  input :: jsstring
  chatInput :: jsstring
  loading :: bool
  error :: jsstring
  modelType :: modelType
  fetches :: nat

record app = ui +
  nodes :: "node list"
  edges :: "edge list"
  nextNodeId :: nat

text \<open>The constants \<open>nodeWidth\<close>, \<open>nodeHeight\<close> and \<open>gap\<close> of each variant.\<close>

fun nodeWidth :: "variant \<Rightarrow> int" where
  "nodeWidth Editable = 180"
| "nodeWidth Simple = 200"

fun nodeHeight :: "variant \<Rightarrow> int" where
  "nodeHeight Editable = 70"
| "nodeHeight Simple = 80"

fun gap :: "variant \<Rightarrow> int" where
  "gap Editable = 80"
| "gap Simple = 100"

text \<open>The position that \<open>generateFlowFromSteps\<close> and \<open>rearrangeFlowchart\<close> give to index \<open>index\<close>.\<close>

definition sequentialPosition :: "variant \<Rightarrow> bool \<Rightarrow> nat \<Rightarrow> point" where
  "sequentialPosition v isHorizontal index =
     (if isHorizontal
      then \<lparr>x_of = int index * (nodeWidth v + gap v) + 100, y_of = 100\<rparr>
      else \<lparr>x_of = 250, y_of = int index * (nodeHeight v + gap v) + 50\<rparr>)"

definition stepNode :: "variant \<Rightarrow> bool \<Rightarrow> nat \<Rightarrow> jsstring \<Rightarrow> node" where
  "stepNode v isHorizontal index step =
     \<lparr>node_id = ascii ''node-'' @ showNat index,
      position = sequentialPosition v isHorizontal index,
      label = step\<rparr>"

text \<open>The edge \<open>edge-i-j\<close> from \<open>src\<close> to \<open>tgt\<close>.\<close>

definition linkEdge :: "nat \<Rightarrow> nat \<Rightarrow> jsstring \<Rightarrow> jsstring \<Rightarrow> edge" where
  "linkEdge i j src tgt =
     \<lparr>edge_id = ascii ''edge-'' @ showNat i @ ascii ''-'' @ showNat j,
      source = src, target = tgt\<rparr>"

definition stepNodes :: "variant \<Rightarrow> bool \<Rightarrow> jsstring list \<Rightarrow> node list" where
  "stepNodes v isHorizontal steps =
     map (\<lambda>(index, step). stepNode v isHorizontal index step) (enumerate 0 (processedSteps steps))"

text \<open>
  The edges of \<open>generateFlowFromSteps\<close>. The editable variant builds them in a loop of
  its own, \<open>for (let i = 0; i < processedSteps.length - 1; i++)\<close>; the simplified one
  inside the loop over the steps, for every \<open>index > 0\<close>.
\<close>

fun stepEdges :: "variant \<Rightarrow> jsstring list \<Rightarrow> edge list" where
  "stepEdges Editable steps =
     map (\<lambda>i. linkEdge i (i + 1) (ascii ''node-'' @ showNat i) (ascii ''node-'' @ showNat (i + 1)))
       [0 ..< length (processedSteps steps) - 1]"
| "stepEdges Simple steps =
     concat (map (\<lambda>(index, step).
         if index > 0
         then [linkEdge (index - 1) index (ascii ''node-'' @ showNat (index - 1))
                 (ascii ''node-'' @ showNat index)]
         else [])
       (enumerate 0 (processedSteps steps)))"

text \<open>
  \<open>generateFlowFromSteps\<close>, as the sequence of its state updates. The simplified variant
  sets nodes and edges at once. The editable variant sets the nodes, empties the edges,
  and sets the new edges from a timer (200 ms later, and once more 300 ms after that when
  there are any); the function below is the state after these timers have run, with no
  other operation in between. The call itself, its timers and what other operations do
  to them are in the section on the editable component in time; lemma
  \<open>generation_settles\<close> there shows that the state below is the one that component is
  in from 500 ms after a call made while no deferred write was pending.
\<close>

fun generateFlowFromSteps :: "variant \<Rightarrow> jsstring list \<Rightarrow> bool \<Rightarrow> app \<Rightarrow> app" where
  "generateFlowFromSteps Simple steps isHorizontal s =
     (let s1 = s\<lparr>nodes := [], edges := []\<rparr>;
          newNodes = stepNodes Simple isHorizontal steps;
          newEdges = stepEdges Simple steps;
          s2 = s1\<lparr>nodes := newNodes, edges := newEdges\<rparr>
      in s2\<lparr>nextNodeId := length (processedSteps steps) + 1\<rparr>)"
| "generateFlowFromSteps Editable steps isHorizontal s =
     (let s1 = s\<lparr>nodes := [], edges := []\<rparr>;
          newNodes = stepNodes Editable isHorizontal steps;
          newEdges = stepEdges Editable steps;
          s2 = s1\<lparr>nodes := newNodes, edges := []\<rparr>;
          s3 = s2\<lparr>nextNodeId := length (processedSteps steps) + 1\<rparr>;
          s4 = s3\<lparr>edges := newEdges\<rparr>
      in if length newEdges > 0 then s4\<lparr>edges := newEdges\<rparr> else s4)"

text \<open>
  \<open>deleteNode\<close> (editable variant): both updates are functional updates of the current
  state. This is the state that the call writes; the render that follows runs the
  edge-restoring effect (\<open>callDeleteNode\<close> in the section on the editable component in
  time).
\<close>

definition deleteNode :: "jsstring \<Rightarrow> 'a app_scheme \<Rightarrow> 'a app_scheme" where
  "deleteNode nodeId s =
     s\<lparr>nodes := filter (\<lambda>node. node_id node \<noteq> nodeId) (nodes s),
       edges := filter (\<lambda>edge. source edge \<noteq> nodeId \<and> target edge \<noteq> nodeId) (edges s)\<rparr>"

text \<open>
  \<open>rearrangeFlowchart\<close>: every node gets the sequential position of its index. The
  simplified variant leaves the edges alone; the editable one replaces them by one edge
  between each two consecutive nodes (again from timers, taken as run; the call with
  its timers is \<open>callRearrangeFlowchart\<close> below).
\<close>

definition rearrangedNodes :: "variant \<Rightarrow> bool \<Rightarrow> node list \<Rightarrow> node list" where
  "rearrangedNodes v isHorizontal ns =
     map (\<lambda>(index, node). node\<lparr>position := sequentialPosition v isHorizontal index\<rparr>)
       (enumerate 0 ns)"

definition rearrangedEdges :: "node list \<Rightarrow> edge list" where
  "rearrangedEdges updatedNodes =
     map (\<lambda>i. linkEdge i (i + 1) (node_id (updatedNodes ! i)) (node_id (updatedNodes ! (i + 1))))
       [0 ..< length updatedNodes - 1]"

fun rearrangeFlowchart :: "variant \<Rightarrow> bool \<Rightarrow> app \<Rightarrow> app" where
  "rearrangeFlowchart Simple isHorizontal s =
     (if length (nodes s) = 0 then s
      else s\<lparr>nodes := rearrangedNodes Simple isHorizontal (nodes s)\<rparr>)"
| "rearrangeFlowchart Editable isHorizontal s =
     (if length (nodes s) = 0 then s
      else
        (let updatedNodes = rearrangedNodes Editable isHorizontal (nodes s);
             newEdges = rearrangedEdges updatedNodes;
             s1 = s\<lparr>nodes := updatedNodes, edges := []\<rparr>;
             s2 = s1\<lparr>edges := newEdges\<rparr>
         in if length newEdges > 0 then s2\<lparr>edges := newEdges\<rparr> else s2))"

text \<open>
  \<open>generateComplexFlowchart\<close>, the same code in both variants. An entry of the structure
  has a text and, optionally, a text to its right and one below; \<open>if (node.right)\<close> holds
  for a defined, non-empty string.
\<close>

record entry =
  text_of :: jsstring
  right_of :: "jsstring option"
  below_of :: "jsstring option"

definition truthy :: "jsstring option \<Rightarrow> bool" where
  "truthy t \<longleftrightarrow> (case t of None \<Rightarrow> False | Some r \<Rightarrow> r \<noteq> [])"

definition complexId :: "nat \<Rightarrow> string \<Rightarrow> jsstring" where
  "complexId index part = ascii ''node-'' @ showNat index @ ascii ''-'' @ ascii part"

definition complexNodes :: "nat \<Rightarrow> entry \<Rightarrow> node list" where
  "complexNodes index node =
     [\<lparr>node_id = complexId index ''main'',
       position = \<lparr>x_of = 250, y_of = int index * (80 + 150) + 50\<rparr>,
       label = text_of node\<rparr>]
     @ (if truthy (right_of node)
        then [\<lparr>node_id = complexId index ''right'',
               position = \<lparr>x_of = 250 + 200 + 250, y_of = int index * (80 + 150) + 50\<rparr>,
               label = the (right_of node)\<rparr>]
        else [])
     @ (if truthy (below_of node)
        then [\<lparr>node_id = complexId index ''below'',
               position = \<lparr>x_of = 250, y_of = int index * (80 + 150) + 50 + 80 + 150 div 2\<rparr>,
               label = the (below_of node)\<rparr>]
        else [])"

definition complexEdges :: "nat \<Rightarrow> entry \<Rightarrow> edge list" where
  "complexEdges index node =
     (if truthy (right_of node)
      then [\<lparr>edge_id = ascii ''edge-'' @ showNat index @ ascii ''-right'',
             source = complexId index ''main'', target = complexId index ''right''\<rparr>]
      else [])
     @ (if truthy (below_of node)
        then [\<lparr>edge_id = ascii ''edge-'' @ showNat index @ ascii ''-below'',
               source = complexId index ''main'', target = complexId index ''below''\<rparr>]
        else [])
     @ (if index > 0
        then [linkEdge (index - 1) index (complexId (index - 1) ''main'') (complexId index ''main'')]
        else [])"

definition generateComplexFlowchart :: "entry list \<Rightarrow> 'a app_scheme \<Rightarrow> 'a app_scheme" where
  "generateComplexFlowchart structure s =
     (let s1 = s\<lparr>nodes := [], edges := []\<rparr>;
          newNodes = concat (map (\<lambda>(index, node). complexNodes index node) (enumerate 0 structure));
          newEdges = concat (map (\<lambda>(index, node). complexEdges index node) (enumerate 0 structure));
          s2 = s1\<lparr>nodes := newNodes, edges := newEdges\<rparr>
      in s2\<lparr>nextNodeId := length newNodes + 1\<rparr>)"

text \<open>The initial values of the state hooks.\<close>

definition initialApp :: app where
  "initialApp =
     \<lparr>chatHistory = [], input = [], chatInput = [], loading = False, error = [],
      modelType = Ollama, fetches = 0, nodes = [], edges = [], nextNodeId = 1\<rparr>"

text \<open>
  The reading of "the roles of x and y are swapped, same constants, mirrored axes" that the
  layout claim is compared with: the horizontal position is the vertical one with its
  coordinates exchanged.
\<close>

definition spec_mirror :: "point \<Rightarrow> point" where
  "spec_mirror p = \<lparr>x_of = y_of p, y_of = x_of p\<rparr>"

section \<open>More string operations\<close>

text \<open>\<open>s.split(re)\<close> for a regular expression that is a class of single code units.\<close>

fun splitOn :: "(nat \<Rightarrow> bool) \<Rightarrow> jsstring \<Rightarrow> jsstring list" where
  "splitOn isSep [] = [[]]"
| "splitOn isSep (c # cs) =
     (if isSep c then [] # splitOn isSep cs
      else (case splitOn isSep cs of [] \<Rightarrow> [[c]] | p # ps \<Rightarrow> (c # p) # ps))"

text \<open>\<open>s.includes(p)\<close> and \<open>s.split(sep)\<close> for strings \<open>p\<close> and (non-empty) \<open>sep\<close>.\<close>

fun includesStr :: "jsstring \<Rightarrow> jsstring \<Rightarrow> bool" where
  "includesStr [] p = (p = [])"
| "includesStr (c # cs) p = (prefix p (c # cs) \<or> includesStr cs p)"

fun splitStr :: "jsstring \<Rightarrow> jsstring \<Rightarrow> jsstring list" where
  "splitStr sep [] = [[]]"
| "splitStr sep (c # cs) =
     (if prefix sep (c # cs) then [] # splitStr sep (drop (length sep - 1) cs)
      else (case splitStr sep cs of [] \<Rightarrow> [[c]] | p # ps \<Rightarrow> (c # p) # ps))"

text \<open>
  \<open>s.toLowerCase().includes(p)\<close> for a pattern \<open>p\<close> of lower-case letters, each of which
  is the lower case of its upper-case letter only (true of the letters used below: no
  other character has a lower case that contains one of them next to the following one).
\<close>

fun ciIncludes :: "jsstring \<Rightarrow> jsstring \<Rightarrow> bool" where
  "ciIncludes [] p = (p = [])"
| "ciIncludes (c # cs) p = (matchLetters p (c # cs) \<noteq> None \<or> ciIncludes cs p)"

section \<open>The step format\<close>

text \<open>
  The editable variant asks the model for lines of the form "word N: text", the word
  being the Russian for "step", and reads them with
  \<open>line.match(/^WORD\s+(\d+)\s*:\s*(.+)$/i)\<close>. \<open>stepWord\<close> is that word in lower case;
  its three letters have their upper case 32 below and share it with no other character,
  so \<open>ciLetter\<close> is their matching under the \<open>i\<close> flag too.

  \<open>matchStepLine\<close> is the match, giving the groups 1 and 2. The pieces of the expression
  are taken from left to right, each greedy quantifier taking all it can: giving back
  part of \<open>\s+\<close>, \<open>\d+\<close> or the first \<open>\s*\<close> never helps, since what follows is a digit, a
  white space or a colon, or the colon. Only the \<open>\s*\<close> after the colon can give back:
  when nothing is left for \<open>(.+)\<close>, its last white space becomes group 2, unless that
  is a line terminator. \<open>(.+)$\<close> has to reach the end of the string, so the rest must
  not contain a line terminator.
\<close>

definition stepWord :: jsstring where
  "stepWord = [1096, 1072, 1075]"

definition matchStepLine :: "jsstring \<Rightarrow> (jsstring \<times> jsstring) option" where
  "matchStepLine line =
     (case matchLetters stepWord line of
        None \<Rightarrow> None
      | Some r1 \<Rightarrow>
          (let r2 = dropWhile isWhiteSpace r1;
               r3 = dropWhile isDigit r2;
               r4 = dropWhile isWhiteSpace r3
           in if takeWhile isWhiteSpace r1 = [] \<or> takeWhile isDigit r2 = [] then None
              else (case r4 of
                      [] \<Rightarrow> None
                    | c # r5 \<Rightarrow>
                        if c \<noteq> 58 then None
                        else (let sp = takeWhile isWhiteSpace r5;
                                  rest = dropWhile isWhiteSpace r5
                              in if rest \<noteq> []
                                 then (if list_ex isLineTerminator rest then None
                                       else Some (takeWhile isDigit r2, rest))
                                 else if sp \<noteq> [] \<and> \<not> isLineTerminator (last sp)
                                 then Some (takeWhile isDigit r2, [last sp])
                                 else None))))"

text \<open>
  \<open>responseText.split('\n').map(line => line.trim()).filter(line => line.length > 0)\<close>
\<close>

definition responseLines :: "jsstring \<Rightarrow> jsstring list" where
  "responseLines responseText =
     filter (\<lambda>line. length line > 0) (map trim (split 10 responseText))"

text \<open>
  The loop that collects \<open>stepLines\<close>: \<open>if (match && match[2])\<close> pushes
  \<open>match[2].trim()\<close>.
\<close>

fun extractStepLines :: "jsstring list \<Rightarrow> jsstring list" where
  "extractStepLines [] = []"
| "extractStepLines (line # lines) =
     (case matchStepLine line of
        None \<Rightarrow> extractStepLines lines
      | Some (num, txt) \<Rightarrow>
          if txt \<noteq> [] then trim txt # extractStepLines lines else extractStepLines lines)"

section \<open>Messages\<close>

text \<open>The fixed texts that the handlers store, as code units.\<close>

definition noStepsRecognised :: jsstring where
  "noStepsRecognised =
     [1053, 1077, 32, 1091, 1076, 1072, 1083, 1086, 1089, 1100, 32, 1088, 1072, 1089, 1087,
      1086, 1079, 1085, 1072, 1090, 1100, 32, 1096, 1072, 1075, 1080, 32, 1074, 32, 1086,
      1090, 1074, 1077, 1090, 1077, 32, 1084, 1086, 1076, 1077, 1083, 1080, 46, 32, 1055,
      1086, 1087, 1088, 1086, 1073, 1091, 1081, 1090, 1077, 32, 1080, 1079, 1084, 1077,
      1085, 1080, 1090, 1100, 32, 1079, 1072, 1087, 1088, 1086, 1089, 46]"

definition noAnswer :: jsstring where
  "noAnswer =
     [1048, 1079, 1074, 1080, 1085, 1080, 1090, 1077, 44, 32, 1085, 1077, 32, 1091, 1076,
      1072, 1083, 1086, 1089, 1100, 32, 1087, 1086, 1083, 1091, 1095, 1080, 1090, 1100, 32,
      1086, 1090, 1074, 1077, 1090, 46]"

definition geminiNotConfigured :: jsstring where
  "geminiNotConfigured =
     [1048, 1079, 1074, 1080, 1085, 1080, 1090, 1077, 44, 32, 1074, 32, 1076, 1072, 1085,
      1085, 1099, 1081, 32, 1084, 1086, 1084, 1077, 1085, 1090, 32, 65, 80, 73, 32, 71,
      111, 111, 103, 108, 101, 32, 71, 101, 109, 105, 110, 105, 32, 1085, 1077, 32, 1085,
      1072, 1089, 1090, 1088, 1086, 1077, 1085, 46, 32, 1048, 1089, 1087, 1086, 1083, 1100,
      1079, 1091, 1081, 1090, 1077, 32, 79, 108, 108, 97, 109, 97, 46]"

definition chatErrorOllama :: jsstring where
  "chatErrorOllama =
     [1048, 1079, 1074, 1080, 1085, 1080, 1090, 1077, 44, 32, 1087, 1088, 1086, 1080, 1079,
      1086, 1096, 1083, 1072, 32, 1086, 1096, 1080, 1073, 1082, 1072, 32, 1087, 1088, 1080,
      32, 1086, 1073, 1088, 1072, 1073, 1086, 1090, 1082, 1077, 32, 1074, 1072, 1096, 1077,
      1075, 1086, 32, 1079, 1072, 1087, 1088, 1086, 1089, 1072, 46, 32, 1055, 1086, 1078,
      1072, 1083, 1091, 1081, 1089, 1090, 1072, 44, 32, 1087, 1088, 1086, 1074, 1077, 1088,
      1100, 1090, 1077, 32, 1087, 1086, 1076, 1082, 1083, 1102, 1095, 1077, 1085, 1080,
      1077, 32, 1082, 32, 79, 108, 108, 97, 109, 97, 32, 1080, 32, 1091, 1073, 1077, 1076,
      1080, 1090, 1077, 1089, 1100, 44, 32, 1095, 1090, 1086, 32, 1089, 1077, 1088, 1074,
      1077, 1088, 32, 1079, 1072, 1087, 1091, 1097, 1077, 1085, 46]"

definition chatErrorRetry :: jsstring where
  "chatErrorRetry =
     [1048, 1079, 1074, 1080, 1085, 1080, 1090, 1077, 44, 32, 1087, 1088, 1086, 1080, 1079,
      1086, 1096, 1083, 1072, 32, 1086, 1096, 1080, 1073, 1082, 1072, 32, 1087, 1088, 1080,
      32, 1086, 1073, 1088, 1072, 1073, 1086, 1090, 1082, 1077, 32, 1074, 1072, 1096, 1077,
      1075, 1086, 32, 1079, 1072, 1087, 1088, 1086, 1089, 1072, 46, 32, 1055, 1086, 1078,
      1072, 1083, 1091, 1081, 1089, 1090, 1072, 44, 32, 1087, 1086, 1087, 1088, 1086, 1073,
      1091, 1081, 1090, 1077, 32, 1077, 1097, 1077, 32, 1088, 1072, 1079, 46]"

definition rearrangedMessage :: "bool \<Rightarrow> jsstring" where
  "rearrangedMessage hasHorizontalCommand =
     [1043, 1086, 1090, 1086, 1074, 1086, 33, 32, 1041, 1083, 1086, 1082, 45, 1089, 1093,
      1077, 1084, 1072, 32, 1087, 1077, 1088, 1077, 1086, 1088, 1075, 1072, 1085, 1080,
      1079, 1086, 1074, 1072, 1085, 1072, 32, 1074, 32]
     @ (if hasHorizontalCommand
        then
          [1075, 1086, 1088, 1080, 1079, 1086, 1085, 1090, 1072, 1083, 1100, 1085, 1099,
           1081]
        else
          [1074, 1077, 1088, 1090, 1080, 1082, 1072, 1083, 1100, 1085, 1099, 1081])
     @
     [32, 1074, 1080, 1076, 46]"

definition noteOllamaServer :: jsstring where
  "noteOllamaServer = ascii
     ''Note: Using basic processing due to API connection issue. For better results, check your Ollama server.''"

definition noteInternet :: jsstring where
  "noteInternet = ascii
     ''Note: Using basic processing due to API connection issue. For better results, check your internet connection.''"

definition unableToProcess :: jsstring where
  "unableToProcess = ascii ''Unable to process input. Please check your Ollama server connection.''"

definition customStructureNote :: jsstring where
  "customStructureNote = ascii ''Using custom structure based on special symbols - and |''"

section \<open>The answer of the model\<close>

text \<open>
  What a request to the chat endpoint comes back with is an input of the model: \<open>Failed\<close>
  when \<open>fetch\<close> or the decoding throws or the status is not ok, \<open>Reply t\<close> with the text
  \<open>t\<close> of the answer otherwise (the empty string when the answer has no text).

  The tests for an orientation word in a text are regular expressions over Russian
  letters some of which have further case variants in recent character tables; which
  code units they match is the engine's matter, and the tests are taken as parameters.
\<close>

datatype reply = Failed | Reply jsstring

record orientationTests =
  verticalCommand :: "jsstring \<Rightarrow> bool"
  horizontalCommand :: "jsstring \<Rightarrow> bool"
  verticalWord :: "jsstring \<Rightarrow> bool"
  horizontalWord :: "jsstring \<Rightarrow> bool"

text \<open>
  The check of \<open>generateFlowchart\<close> for "horizontal links written with dashes": the input
  contains a dash and the dash split has more than one piece.
\<close>

definition dashHorizontal :: "jsstring \<Rightarrow> bool" where
  "dashHorizontal inp \<longleftrightarrow> includesChar inp 45 \<and> length (splitTrim 45 inp) > 1"

section \<open>The editable variant: generateFlowchart and handleSendMessage\<close>

text \<open>
  The \<open>catch\<close> block of \<open>generateFlowchart\<close>: the input is split at every line feed,
  carriage return, period, semicolon and dash (\<open>/[\n\r\.\;\-]/\<close>), and the trimmed pieces
  longer than three code units are the steps.
\<close>

definition fallbackSeparator :: "nat \<Rightarrow> bool" where
  "fallbackSeparator c \<longleftrightarrow> c = 10 \<or> c = 13 \<or> c = 46 \<or> c = 59 \<or> c = 45"

definition fallbackEditable :: "app \<Rightarrow> app" where
  "fallbackEditable s =
     (let fallbackSteps =
            filter (\<lambda>line. length line > 3) (map trim (splitOn fallbackSeparator (input s)))
      in if length fallbackSteps > 0
         then (generateFlowFromSteps Editable fallbackSteps False s)\<lparr>error := noteOllamaServer\<rparr>
         else (generateFlowFromSteps Editable [trim (input s)] False s)\<lparr>error := unableToProcess\<rparr>)"

definition generateFlowchartEditable :: "reply \<Rightarrow> app \<Rightarrow> app" where
  "generateFlowchartEditable reply s =
     (if trim (input s) = [] then s
      else
        (let s1 = s\<lparr>loading := True, error := []\<rparr>
         in if length (trim (input s)) < 5
            then (generateFlowFromSteps Editable [trim (input s)] False s1)\<lparr>loading := False\<rparr>
            else
              (let isHorizontal = dashHorizontal (input s);
                   s2 = s1\<lparr>fetches := fetches s1 + 1\<rparr>
               in (case reply of
                     Failed \<Rightarrow> fallbackEditable s2
                   | Reply responseText \<Rightarrow>
                       if responseText = [] then fallbackEditable s2
                       else
                         (let lines = responseLines responseText;
                              stepLines = extractStepLines lines
                          in if length stepLines > 0
                             then generateFlowFromSteps Editable stepLines isHorizontal s2
                             else if length lines > 1
                             then generateFlowFromSteps Editable lines isHorizontal s2
                             else s2\<lparr>error := noStepsRecognised\<rparr>))
                  \<lparr>loading := False\<rparr>)))"

text \<open>
  \<open>handleSendMessage\<close>. With the Gemini setting no request is made and a fixed text is
  the answer.
\<close>

definition appendMessage :: "role \<Rightarrow> jsstring \<Rightarrow> 'a ui_scheme \<Rightarrow> 'a ui_scheme" where
  "appendMessage r c s = s\<lparr>chatHistory := chatHistory s @ [\<lparr>role = r, content = c\<rparr>]\<rparr>"

definition answeredEditable :: "orientationTests \<Rightarrow> jsstring \<Rightarrow> jsstring \<Rightarrow> app \<Rightarrow> app" where
  "answeredEditable tests chatInputText responseText s =
     (let s1 = appendMessage Assistant responseText s;
          isHorizontal = (horizontalCommand tests chatInputText \<or> horizontalCommand tests responseText);
          stepLines = extractStepLines (responseLines responseText)
      in if length stepLines > 0
         then generateFlowFromSteps Editable stepLines isHorizontal s1
         else s1)"

definition handleSendMessageEditable :: "orientationTests \<Rightarrow> reply \<Rightarrow> app \<Rightarrow> app" where
  "handleSendMessageEditable tests reply s =
     (if trim (chatInput s) = [] then s
      else
        (let s1 = (appendMessage User (chatInput s) s)\<lparr>chatInput := [], loading := True\<rparr>
         in (case modelType s of
               Ollama \<Rightarrow>
                 (let s2 = s1\<lparr>fetches := fetches s1 + 1\<rparr>
                  in (case reply of
                        Failed \<Rightarrow> appendMessage Assistant chatErrorOllama s2
                      | Reply t \<Rightarrow>
                          answeredEditable tests (chatInput s) (if t = [] then noAnswer else t) s2))
             | Gemini \<Rightarrow> answeredEditable tests (chatInput s) geminiNotConfigured s1)
            \<lparr>loading := False\<rparr>))"

section \<open>The simplified variant: generateFlowchart and handleSendMessage\<close>

text \<open>
  The \<open>catch\<close> block of \<open>generateFlowchart\<close> tries a numbered list, then bullets, then
  sentences; arrows override these, and an input with \<open>if\<close> and \<open>then\<close> or \<open>else\<close> is
  drawn as a structure of its own.

  \<open>numberedPattern\<close> is \<open>/^\d+\.\s+.+/.test(line)\<close>: digits, a period, white space, and
  one more character that is not a line terminator, which is the first character after
  the white space or, when \<open>\s+\<close> gives back, one of its own after the first.
  \<open>stripNumber\<close> is \<open>line.replace(/^\d+\.\s+/, '')\<close>.
\<close>

definition numberedPattern :: "jsstring \<Rightarrow> bool" where
  "numberedPattern line \<longleftrightarrow>
     takeWhile isDigit line \<noteq> [] \<and>
     (case dropWhile isDigit line of
        [] \<Rightarrow> False
      | d # r \<Rightarrow>
          d = 46 \<and> takeWhile isWhiteSpace r \<noteq> [] \<and>
          (dropWhile isWhiteSpace r \<noteq> []
           \<or> list_ex (\<lambda>c. \<not> isLineTerminator c) (tl (takeWhile isWhiteSpace r))))"

definition stripNumber :: "jsstring \<Rightarrow> jsstring" where
  "stripNumber line =
     (if takeWhile isDigit line = [] then line
      else (case dropWhile isDigit line of
              [] \<Rightarrow> line
            | d # r \<Rightarrow>
                if d = 46 \<and> takeWhile isWhiteSpace r \<noteq> [] then dropWhile isWhiteSpace r
                else line))"

definition isBullet :: "nat \<Rightarrow> bool" where
  "isBullet c \<longleftrightarrow> c = 8226 \<or> c = 42 \<or> c = 45"

text \<open>
  \<open>input.split(/\.\s+|\.\s*$/)\<close>: a period splits when white space follows, which is
  consumed with it, or when it is the last character.
\<close>

function splitSentences :: "jsstring \<Rightarrow> jsstring list" where
  "splitSentences [] = [[]]"
| "splitSentences (c # cs) =
     (if c = 46 \<and> (cs = [] \<or> isWhiteSpace (hd cs))
      then [] # splitSentences (dropWhile isWhiteSpace cs)
      else (case splitSentences cs of [] \<Rightarrow> [[c]] | p # ps \<Rightarrow> (c # p) # ps))"
  by pat_completeness auto
termination
  by (relation "measure length") (auto intro: le_imp_less_Suc length_dropWhile_le)

text \<open>\<open>input.split(/->|\<rightarrow>/)\<close>, the arrow glyph being the code unit 8594.\<close>

fun splitArrows :: "jsstring \<Rightarrow> jsstring list" where
  "splitArrows [] = [[]]"
| "splitArrows (c # cs) =
     (if prefix [45, 62] (c # cs) then [] # splitArrows (drop 1 cs)
      else if c = 8594 then [] # splitArrows cs
      else (case splitArrows cs of [] \<Rightarrow> [[c]] | p # ps \<Rightarrow> (c # p) # ps))"

definition trimmedPieces :: "jsstring list \<Rightarrow> jsstring list" where
  "trimmedPieces pieces =
     filter (\<lambda>p. length p > 0) (map trim (filter (\<lambda>p. p \<noteq> []) pieces))"

text \<open>
  The loop over the lines of a conditional input: the entry, if any, that index \<open>i\<close>
  contributes. \<open>lines[i-1]?.toLowerCase().includes('if')\<close> is false for \<open>i = 0\<close>.
\<close>

definition conditionalEntry :: "jsstring list \<Rightarrow> nat \<Rightarrow> entry list" where
  "conditionalEntry lines i =
     (if ciIncludes (lines ! i) (ascii ''if'')
      then
        (if i + 1 < length lines
         then
           [\<lparr>text_of = lines ! i,
             right_of = (if ciIncludes (lines ! (i + 1)) (ascii ''then'')
                         then Some (lines ! (i + 1)) else None),
             below_of = (if ciIncludes (lines ! (i + 1)) (ascii ''else'')
                         then Some (lines ! (i + 1))
                         else if i + 2 < length lines \<and> ciIncludes (lines ! (i + 2)) (ascii ''else'')
                         then Some (lines ! (i + 2))
                         else None)\<rparr>]
         else [\<lparr>text_of = lines ! i, right_of = None, below_of = None\<rparr>])
      else if \<not> ciIncludes (lines ! i) (ascii ''then'') \<and> \<not> ciIncludes (lines ! i) (ascii ''else'')
              \<and> \<not> (i > 0 \<and> ciIncludes (lines ! (i - 1)) (ascii ''if''))
      then [\<lparr>text_of = lines ! i, right_of = None, below_of = None\<rparr>]
      else [])"

definition conditionalStructure :: "jsstring \<Rightarrow> entry list" where
  "conditionalStructure inp =
     (let lines = map trim (filter (\<lambda>l. l \<noteq> []) (split 10 inp))
      in concat (map (conditionalEntry lines) [0 ..< length lines]))"

definition fallbackSimple :: "app \<Rightarrow> app" where
  "fallbackSimple s =
     (let inp = input s;
          numberedLines = filter (\<lambda>line. numberedPattern (trim line)) (split 10 inp);
          bullets = (includesChar inp 8226 \<or> includesChar inp 42 \<or> includesChar inp 45);
          fallbackSteps1 =
            (if length numberedLines > 1 then map (\<lambda>line. stripNumber (trim line)) numberedLines
             else if bullets then trimmedPieces (splitOn isBullet inp)
             else trimmedPieces (splitSentences inp));
          isHorizontal1 =
            (\<not> length numberedLines > 1 \<and> bullets
             \<and> includesChar inp 45 \<and> \<not> includesChar inp 8226 \<and> \<not> includesChar inp 42);
          arrows = ((includesStr inp [45, 62] \<or> includesChar inp 8594)
                    \<and> length (trimmedPieces (splitArrows inp)) > 1);
          fallbackSteps = (if arrows then trimmedPieces (splitArrows inp) else fallbackSteps1);
          isHorizontal = (arrows \<or> isHorizontal1);
          hasSpecialStructure =
            (ciIncludes inp (ascii ''if'')
             \<and> (ciIncludes inp (ascii ''then'') \<or> ciIncludes inp (ascii ''else'')));
          flowchartStructure = (if hasSpecialStructure then conditionalStructure inp else [])
      in if hasSpecialStructure \<and> length flowchartStructure > 0
         then generateComplexFlowchart flowchartStructure s
         else if length fallbackSteps > 0
         then (generateFlowFromSteps Simple fallbackSteps isHorizontal s)\<lparr>error := noteInternet\<rparr>
         else (generateFlowFromSteps Simple [trim inp] False s)\<lparr>error := noteInternet\<rparr>)"

definition generateFlowchartSimple :: "reply \<Rightarrow> app \<Rightarrow> app" where
  "generateFlowchartSimple reply s =
     (if trim (input s) = [] then s
      else
        (let s1 = s\<lparr>loading := True, error := []\<rparr>
         in if length (trim (input s)) < 5
            then (generateFlowFromSteps Simple [trim (input s)] False s1)\<lparr>loading := False\<rparr>
            else
              (let isHorizontal = dashHorizontal (input s);
                   s2 = s1\<lparr>fetches := fetches s1 + 1\<rparr>
               in (case reply of
                     Failed \<Rightarrow> fallbackSimple s2
                   | Reply responseText \<Rightarrow>
                       if responseText = [] then fallbackSimple s2
                       else
                         (let steps = splitTrim 10 responseText
                          in if length steps = 0 then fallbackSimple s2
                             else generateFlowFromSteps Simple steps isHorizontal s2))
                  \<lparr>loading := False\<rparr>)))"

text \<open>
  The chat of the simplified variant looks for mentions "word N" of steps, first in the
  user's text and then in the answer, with \<open>/WORD\s+(\d+)/gi\<close> and \<open>exec\<close> in a loop.
  \<open>matchMention\<close> is a match at the start of \<open>s\<close>: the matched text and group 1.
  \<open>stepMentions\<close> are the matches from left to right, each search starting where the match
  before ended.
\<close>

definition matchMention :: "jsstring \<Rightarrow> (jsstring \<times> jsstring) option" where
  "matchMention s =
     (case matchLetters stepWord s of
        None \<Rightarrow> None
      | Some r \<Rightarrow>
          (let spaces = takeWhile isWhiteSpace r;
               num = takeWhile isDigit (dropWhile isWhiteSpace r)
           in if spaces = [] \<or> num = [] then None
              else Some (take (length stepWord + length spaces + length num) s, num)))"

fun stepMentions :: "jsstring \<Rightarrow> (jsstring \<times> jsstring) list" where
  "stepMentions [] = []"
| "stepMentions (c # cs) =
     (case matchMention (c # cs) of
        None \<Rightarrow> stepMentions cs
      | Some (whole, num) \<Rightarrow> (whole, num) # stepMentions (drop (length whole - 1) cs))"

definition stepLabelPrefix :: jsstring where
  "stepLabelPrefix = [1064, 1072, 1075, 32]"

text \<open>
  The steps taken from the answer when the user's text mentions no step; \<open>None\<close> when
  nothing is generated.
\<close>

definition stepsFromAnswer :: "jsstring \<Rightarrow> jsstring list option" where
  "stepsFromAnswer responseText =
     (let matches = stepMentions responseText
      in if length matches > 0
         then
           (let lines = filter (\<lambda>l. l \<noteq> []) (map trim (split 10 responseText))
            in Some (if length lines > length matches
                     then filter (\<lambda>line. length line > 0 \<and> \<not> prefix fence line) lines
                     else map fst matches))
         else
           (let steps =
                  filter (\<lambda>step. length step > 0
                            \<and> \<not> prefix fence step
                            \<and> \<not> prefix (ascii ''`mermaid'') step
                            \<and> \<not> prefix (ascii ''graph'') step
                            \<and> \<not> prefix (ascii ''A['') step
                            \<and> step \<noteq> [34, 109, 101, 114, 109, 97, 105, 100, 34])
                    (map trim (filter (\<lambda>l. l \<noteq> []) (split 10 responseText)))
            in if length steps > 0 then Some steps
               else if length (trim responseText) > 0 then Some [trim responseText]
               else None))"

definition answeredSimple ::
  "orientationTests \<Rightarrow> jsstring \<Rightarrow> jsstring \<Rightarrow> app \<Rightarrow> app" where
  "answeredSimple tests userInputText responseText s =
     (let userSteps = map (\<lambda>(whole, num). stepLabelPrefix @ num) (stepMentions userInputText);
          hasVerticalCommand = verticalCommand tests userInputText;
          hasHorizontalCommand = horizontalCommand tests userInputText;
          s1 = appendMessage Assistant responseText s;
          s2 = (if (hasVerticalCommand \<or> hasHorizontalCommand
                    \<or> verticalWord tests responseText \<or> horizontalWord tests responseText)
                   \<and> length (nodes s) > 0
                then rearrangeFlowchart Simple
                       (hasHorizontalCommand \<or> horizontalWord tests responseText) s1
                else s1)
      in if length userSteps > 0
         then generateFlowFromSteps Simple userSteps hasHorizontalCommand s2
         else if ciIncludes userInputText stepWord \<and> \<not> stepMentions userInputText \<noteq> []
         then generateFlowFromSteps Simple [userInputText] hasHorizontalCommand s2
         else (case stepsFromAnswer responseText of
                 Some steps \<Rightarrow> generateFlowFromSteps Simple steps hasHorizontalCommand s2
               | None \<Rightarrow> s2))"

definition handleSendMessageSimple :: "orientationTests \<Rightarrow> reply \<Rightarrow> app \<Rightarrow> app" where
  "handleSendMessageSimple tests reply s =
     (if trim (chatInput s) = [] then s
      else
        (let userInputText = trim (chatInput s);
             hasVerticalCommand = verticalCommand tests userInputText;
             hasHorizontalCommand = horizontalCommand tests userInputText
         in if length (nodes s) > 0 \<and> (hasVerticalCommand \<or> hasHorizontalCommand)
            then
              appendMessage Assistant (rearrangedMessage hasHorizontalCommand)
                (rearrangeFlowchart Simple hasHorizontalCommand
                  ((appendMessage User (chatInput s) s)\<lparr>chatInput := []\<rparr>))
            else
              (let s1 = (appendMessage User (chatInput s) s)\<lparr>chatInput := [], loading := True\<rparr>
               in (case modelType s of
                     Ollama \<Rightarrow>
                       (let s2 = s1\<lparr>fetches := fetches s1 + 1\<rparr>
                        in (case reply of
                              Failed \<Rightarrow> appendMessage Assistant chatErrorOllama s2
                            | Reply t \<Rightarrow>
                                answeredSimple tests userInputText (if t = [] then noAnswer else t) s2))
                   | Gemini \<Rightarrow> answeredSimple tests userInputText geminiNotConfigured s1)
                  \<lparr>loading := False\<rparr>)))"

section \<open>The variant that draws vector graphics\<close>

text \<open>
  The third variant (second file of \<open>unnamed/part_000\<close>) has no node and edge lists: it
  writes the markup of the drawing into the page. The markup is determined by the
  arguments of \<open>renderSvgFlowchart(steps, isHorizontal)\<close> or
  \<open>renderSvgFlowchartComplex(structure)\<close>, and the state keeps those. The geometry of the
  sequential drawing is modelled further down.
\<close>

datatype rendered = Blank | Sequential "jsstring list" bool | Structured "entry list"

record svgApp = ui +
  diagram :: rendered

definition initialSvgApp :: svgApp where
  "initialSvgApp =
     \<lparr>chatHistory = [], input = [], chatInput = [], loading = False, error = [],
      modelType = Ollama, fetches = 0, diagram = Blank\<rparr>"

text \<open>
  One line of a text with the special symbols \<open>-\<close> and \<open>|\<close>: \<open>a - b\<close> is a node with a
  node to its right, \<open>a | b\<close> a node with a node below, any other non-empty line a node.
  The destructuring \<open>[nodeText, rightText] = trimmedLine.split('-').map(s => s.trim())\<close>
  takes the first two pieces.
\<close>

definition structureEntry :: "jsstring \<Rightarrow> entry list" where
  "structureEntry line =
     (let trimmedLine = trim line
      in if trimmedLine = [] then []
         else if includesChar trimmedLine 45 \<and> \<not> prefix [45] trimmedLine
         then (case map trim (split 45 trimmedLine) of
                 nodeText # rightText # others \<Rightarrow>
                   if nodeText \<noteq> [] \<and> rightText \<noteq> []
                   then [\<lparr>text_of = nodeText, right_of = Some rightText, below_of = None\<rparr>]
                   else []
               | _ \<Rightarrow> [])
         else if includesChar trimmedLine 124 \<and> \<not> prefix [124] trimmedLine
         then (case map trim (split 124 trimmedLine) of
                 nodeText # belowText # others \<Rightarrow>
                   if nodeText \<noteq> [] \<and> belowText \<noteq> []
                   then [\<lparr>text_of = nodeText, right_of = None, below_of = Some belowText\<rparr>]
                   else []
               | _ \<Rightarrow> [])
         else [\<lparr>text_of = trimmedLine, right_of = None, below_of = None\<rparr>])"

definition failedToProcess :: jsstring where
  "failedToProcess = ascii
     ''Failed to process input: Network error and insufficient input for fallback processing''"

text \<open>
  The inner \<open>catch\<close> block of \<open>generateFlowchart\<close>. When the special symbols give no
  structure, the steps come from \<open>fallbackStepsSvg\<close>, which follows the variables
  \<open>fallbackSteps\<close> and \<open>isHorizontal\<close> from statement to statement: the dash split, the
  standard separators when the dash split is not used, the whole input when nothing came
  out.
\<close>

definition fallbackStepsSvg :: "jsstring \<Rightarrow> jsstring list \<times> bool" where
  "fallbackStepsSvg inp =
     (let fallbackSteps1 = (if includesChar inp 45 then splitTrim 45 inp else []);
          isHorizontal1 = (includesChar inp 45 \<and> length fallbackSteps1 > 1);
          standard = (\<not> isHorizontal1 \<or> length fallbackSteps1 \<le> 1);
          fallbackSteps2 =
            (if standard
             then (if includesChar inp 46 then splitTrim 46 inp
                   else if includesChar inp 10 then splitTrim 10 inp
                   else if includesChar inp 44 then splitTrim 44 inp
                   else fallbackSteps1)
             else fallbackSteps1);
          isHorizontal = (if standard then False else isHorizontal1);
          fallbackSteps = (if length fallbackSteps2 = 0 then [trim inp] else fallbackSteps2)
      in (fallbackSteps, isHorizontal))"

definition fallbackSvg :: "svgApp \<Rightarrow> svgApp" where
  "fallbackSvg s =
     (let inp = input s;
          special = (includesChar inp 45 \<or> includesChar inp 124);
          flowchartStructure = (if special then concat (map structureEntry (split 10 inp)) else [])
      in if special \<and> length flowchartStructure > 0
         then s\<lparr>diagram := Structured flowchartStructure, error := customStructureNote,
                loading := False\<rparr>
         else
           (case fallbackStepsSvg inp of
              (fallbackSteps, isHorizontal) \<Rightarrow>
                if length fallbackSteps > 0
                then s\<lparr>diagram := Sequential fallbackSteps isHorizontal, error := noteInternet\<rparr>
                else s\<lparr>error := failedToProcess\<rparr>))"

text \<open>
  \<open>generateFlowchart\<close>. \<open>hasApiKey\<close> says whether the build has a key for the second
  endpoint; without one that path throws before any request.
\<close>

definition generateFlowchartSvg :: "bool \<Rightarrow> reply \<Rightarrow> svgApp \<Rightarrow> svgApp" where
  "generateFlowchartSvg hasApiKey reply s =
     (if trim (input s) = [] then s
      else
        (let s1 = s\<lparr>loading := True, error := []\<rparr>
         in if length (trim (input s)) < 5
            then s1\<lparr>diagram := Sequential [trim (input s)] False, loading := False\<rparr>
            else
              (let isHorizontal = dashHorizontal (input s);
                   s2 = s1\<lparr>fetches := fetches s1 + 1\<rparr>
               in (if modelType s = Gemini \<and> \<not> hasApiKey then fallbackSvg s1
                   else (case reply of
                           Failed \<Rightarrow> fallbackSvg s2
                         | Reply responseText \<Rightarrow>
                             if responseText = [] then fallbackSvg s2
                             else
                               (let steps = splitTrim 10 responseText
                                in if length steps = 0 then fallbackSvg s2
                                   else s2\<lparr>diagram := Sequential steps isHorizontal\<rparr>)))
                  \<lparr>loading := False\<rparr>)))"

text \<open>
  \<open>sendChatMessage\<close>. An answer with \<open>FLOWCHART:\<close> is drawn from the lines of the piece
  after the first occurrence (\<open>split('FLOWCHART:')[1]\<close>). The branch for
  \<open>COMPLEX_FLOWCHART:\<close> comes second in the source, as here.
\<close>

definition answeredSvg :: "jsstring \<Rightarrow> svgApp \<Rightarrow> svgApp" where
  "answeredSvg aiResponse s =
     (let s1 = appendMessage Assistant aiResponse s
      in if includesStr aiResponse (ascii ''FLOWCHART:'')
         then (case splitStr (ascii ''FLOWCHART:'') aiResponse of
                 first # flowchartText # others \<Rightarrow>
                   (let steps = splitTrim 10 (trim flowchartText)
                    in if length steps > 0 then s1\<lparr>diagram := Sequential steps False\<rparr> else s1)
               | _ \<Rightarrow> appendMessage Assistant chatErrorRetry s1)
         else if includesStr aiResponse (ascii ''COMPLEX_FLOWCHART:'')
         then (case splitStr (ascii ''COMPLEX_FLOWCHART:'') aiResponse of
                 first # flowchartText # others \<Rightarrow>
                   (let flowchartStructure =
                          concat (map structureEntry (split 10 (trim flowchartText)))
                    in if length flowchartStructure > 0
                       then s1\<lparr>diagram := Structured flowchartStructure\<rparr> else s1)
               | _ \<Rightarrow> appendMessage Assistant chatErrorRetry s1)
         else s1)"

definition sendChatMessage :: "bool \<Rightarrow> reply \<Rightarrow> svgApp \<Rightarrow> svgApp" where
  "sendChatMessage hasApiKey reply s =
     (if trim (chatInput s) = [] then s
      else
        (let s1 = (appendMessage User (chatInput s) s)\<lparr>chatInput := [], loading := True\<rparr>;
             s2 = s1\<lparr>fetches := fetches s1 + 1\<rparr>
         in (if modelType s = Gemini \<and> \<not> hasApiKey then appendMessage Assistant chatErrorRetry s1
             else (case reply of
                     Failed \<Rightarrow> appendMessage Assistant chatErrorRetry s2
                   | Reply t \<Rightarrow>
                       if t = [] then appendMessage Assistant chatErrorRetry s2
                       else answeredSvg t s2))
            \<lparr>loading := False\<rparr>))"

section \<open>The geometry of the drawn flowchart\<close>

text \<open>
  \<open>generateSvgFlowchart\<close> returns markup: one rectangle with its text for each step and
  one line with an arrow head between consecutive steps. The model keeps the numbers that
  the markup is printed from: a box for each rectangle, a connector for each line.

  The size of a node follows its text: 8 units for each character of its longest line
  and 20 for each line, plus a padding of 20 on every side, and at least 150 by 60.
  \<open>Math.max\<close> of the line lengths, and of the widths or heights of the nodes, is
  \<open>maximum\<close>; the lists are not empty and their members not negative wherever a box is
  drawn. All sizes and both totals are even, so the halves in the positions are exact.
\<close>

record box =
  box_x :: int
  box_y :: int
  box_width :: int
  box_height :: int

record connector =
  from_x :: int
  from_y :: int
  to_x :: int
  to_y :: int

definition maximum :: "int list \<Rightarrow> int" where
  "maximum xs = foldr max xs 0"

definition nodeSize :: "jsstring \<Rightarrow> int \<times> int" where
  "nodeSize step =
     (let lines = split 10 step;
          maxLineLength = maximum (map (\<lambda>line. int (length line)) lines);
          width = max 150 (maxLineLength * 8 + 20 * 2);
          height = max 60 (int (length lines) * 20 + 20 * 2)
      in (width, height))"

text \<open>
  The size of the whole drawing: along the flow the sizes of the nodes, a gap of 50
  between them and a margin of 100; across the flow the largest node and the margin.
\<close>

definition totalWidth :: "bool \<Rightarrow> (int \<times> int) list \<Rightarrow> int" where
  "totalWidth isHorizontal nodeSizes =
     (if isHorizontal
      then sum_list (map fst nodeSizes) + (int (length nodeSizes) - 1) * 50 + 100
      else maximum (map fst nodeSizes) + 100)"

definition totalHeight :: "bool \<Rightarrow> (int \<times> int) list \<Rightarrow> int" where
  "totalHeight isHorizontal nodeSizes =
     (if isHorizontal
      then maximum (map snd nodeSizes) + 100
      else sum_list (map snd nodeSizes) + (int (length nodeSizes) - 1) * 50 + 100)"

text \<open>
  The loop over the steps, with its running variables \<open>currentX\<close> and \<open>currentY\<close>
  (both 50 at the start): along the flow each node starts where the one before ended plus
  the gap, across the flow it is centred. From the second node on, a connector of the
  length of the gap ends at the node.
\<close>

fun placeBoxes ::
  "bool \<Rightarrow> int \<Rightarrow> int \<Rightarrow> nat \<Rightarrow> int \<Rightarrow> int \<Rightarrow> (int \<times> int) list \<Rightarrow> box list \<times> connector list" where
  "placeBoxes isHorizontal tw th index currentX currentY [] = ([], [])"
| "placeBoxes isHorizontal tw th index currentX currentY ((width, height) # sizes) =
     (let x = (if isHorizontal then currentX else tw div 2 - width div 2);
          y = (if isHorizontal then th div 2 - height div 2 else currentY);
          connectors =
            (if index > 0
             then [if isHorizontal
                   then \<lparr>from_x = x - 50, from_y = th div 2, to_x = x, to_y = th div 2\<rparr>
                   else \<lparr>from_x = tw div 2, from_y = y - 50, to_x = tw div 2, to_y = y\<rparr>]
             else []);
          rest = placeBoxes isHorizontal tw th (index + 1)
                   (if isHorizontal then currentX + width + 50 else currentX)
                   (if isHorizontal then currentY else currentY + height + 50) sizes
      in (\<lparr>box_x = x, box_y = y, box_width = width, box_height = height\<rparr> # fst rest,
          connectors @ snd rest))"

text \<open>The boxes and the connectors of \<open>generateSvgFlowchart(steps, isHorizontal)\<close>.\<close>

definition generateSvgFlowchart :: "jsstring list \<Rightarrow> bool \<Rightarrow> box list \<times> connector list" where
  "generateSvgFlowchart steps isHorizontal =
     (let nodeSizes = map nodeSize steps
      in placeBoxes isHorizontal (totalWidth isHorizontal nodeSizes)
           (totalHeight isHorizontal nodeSizes) 0 50 50 nodeSizes)"


text \<open>The connector that the loop draws in front of a box that is not the first.\<close>

definition connectorTo :: "bool \<Rightarrow> int \<Rightarrow> int \<Rightarrow> box \<Rightarrow> connector" where
  "connectorTo h tw th b =
     (if h then \<lparr>from_x = box_x b - 50, from_y = th div 2, to_x = box_x b, to_y = th div 2\<rparr>
      else \<lparr>from_x = tw div 2, from_y = box_y b - 50, to_x = tw div 2, to_y = box_y b\<rparr>)"

text \<open>
  The invariant of the diagram state: the source and the target of every edge are ids of
  nodes in the node list.
\<close>

definition edgesReferToNodes :: "'a app_scheme \<Rightarrow> bool" where
  "edgesReferToNodes s \<longleftrightarrow>
     (\<forall>e \<in> set (edges s).
        source e \<in> set (map node_id (nodes s)) \<and> target e \<in> set (map node_id (nodes s)))"

section \<open>The editable component in time\<close>

text \<open>
  In the editable variant three pieces of code write the edge list later than the call
  that causes the write. \<open>generateFlowFromSteps\<close> (and \<open>rearrangeFlowchart\<close>, which
  nothing in that variant calls) empties the edge list and sets the new edges from a
  timer, 200 ms after the call, and once more from a second timer that the first one
  starts, 300 ms later. An effect with the dependencies \<open>[nodes, edges, setEdges]\<close>
  runs after every render in which the node list or the edge list is a new array; when
  there are at least two nodes and no edge it starts a timer that, 500 ms later, sets
  edges linking the nodes in the order of their positions. No timer is ever cancelled,
  and each callback writes the edge list that was computed when its timer was started.

  The component is therefore modelled with a clock, in milliseconds, and the list of its
  pending timers in the order in which they were started. A timer is the time at which
  it is due and its callback; a callback is one of the three in the source, with the
  edge list it closes over.
\<close>

datatype callback =
    SetEdges "edge list"
  | SetEdgesAgain "edge list"
  | RestoreEdges "edge list"

record timer =
  due :: nat
  callback :: callback

record component = app +
  clock :: nat
  timers :: "timer list"

definition setTimeout :: "callback \<Rightarrow> nat \<Rightarrow> component \<Rightarrow> component" where
  "setTimeout cb delay s = s\<lparr>timers := timers s @ [\<lparr>due = clock s + delay, callback = cb\<rparr>]\<rparr>"

text \<open>
  The effect sorts a copy of the node list with the comparison function
  \<open>comparePositions\<close>: two nodes whose \<open>y\<close> differ by less than 50 are compared by \<open>x\<close>,
  others by \<open>y\<close>. \<open>sortByPosition\<close> is the stable sort by insertion. Where the
  comparison function is a consistent ordering of the nodes at hand (as it is for nodes
  in one column 150 apart or in one row, which is how \<open>generateFlowFromSteps\<close> places
  them) this is the result of \<open>Array.prototype.sort\<close>; where it is not, the language
  leaves the order to the engine, and what is proved below for all node lists uses only
  that the sorted list has the same nodes. Positions are those that the operations
  modelled here compute; dragging a node is not modelled.
\<close>

definition comparePositions :: "node \<Rightarrow> node \<Rightarrow> int" where
  "comparePositions a b =
     (let isHorizontal = \<bar>y_of (position a) - y_of (position b)\<bar> < 50
      in if isHorizontal then x_of (position a) - x_of (position b)
         else y_of (position a) - y_of (position b))"

fun insertNode :: "node \<Rightarrow> node list \<Rightarrow> node list" where
  "insertNode a [] = [a]"
| "insertNode a (b # bs) =
     (if comparePositions a b < 0 then a # b # bs else b # insertNode a bs)"

definition sortByPosition :: "node list \<Rightarrow> node list" where
  "sortByPosition ns = foldl (\<lambda>sorted a. insertNode a sorted) [] ns"

text \<open>The edges \<open>edge-auto-i-j\<close> between consecutive nodes of the sorted list.\<close>

definition restoredEdges :: "node list \<Rightarrow> edge list" where
  "restoredEdges sortedNodes =
     map (\<lambda>i. \<lparr>edge_id = ascii ''edge-auto-'' @ showNat i @ ascii ''-'' @ showNat (i + 1),
               source = node_id (sortedNodes ! i), target = node_id (sortedNodes ! (i + 1))\<rparr>)
       [0 ..< length sortedNodes - 1]"

text \<open>
  The effect, run in the render that follows a change of the node list or the edge list.
\<close>

definition restoringEffect :: "component \<Rightarrow> component" where
  "restoringEffect s =
     (if length (nodes s) \<ge> 2 \<and> length (edges s) = 0
      then (let newEdges = restoredEdges (sortByPosition (nodes s))
            in if length newEdges > 0 then setTimeout (RestoreEdges newEdges) 500 s else s)
      else s)"

text \<open>
  A call of one of the four operations in the component: the state updates of the
  handler, the timer it starts, and the effect in the render that follows. The updates
  of one handler are taken together; were each of them rendered on its own, the effect
  would run more often, but could only start the same write a second time.
  \<open>generateComplexFlowchart\<close> and \<open>rearrangeFlowchart\<close> are defined in the editable
  variant, with the same deferred writes, but nothing there calls them.
\<close>

definition callGenerateFlowFromSteps :: "jsstring list \<Rightarrow> bool \<Rightarrow> component \<Rightarrow> component" where
  "callGenerateFlowFromSteps steps isHorizontal s =
     (let s1 = s\<lparr>nodes := [], edges := []\<rparr>;
          newNodes = stepNodes Editable isHorizontal steps;
          newEdges = stepEdges Editable steps;
          s2 = s1\<lparr>nodes := newNodes, edges := []\<rparr>;
          s3 = setTimeout (SetEdges newEdges) 200 s2;
          s4 = s3\<lparr>nextNodeId := length (processedSteps steps) + 1\<rparr>
      in restoringEffect s4)"

definition callGenerateComplexFlowchart :: "entry list \<Rightarrow> component \<Rightarrow> component" where
  "callGenerateComplexFlowchart structure s = restoringEffect (generateComplexFlowchart structure s)"

definition callRearrangeFlowchart :: "bool \<Rightarrow> component \<Rightarrow> component" where
  "callRearrangeFlowchart isHorizontal s =
     (if length (nodes s) = 0 then s
      else
        (let updatedNodes = rearrangedNodes Editable isHorizontal (nodes s);
             newEdges = rearrangedEdges updatedNodes;
             s1 = s\<lparr>nodes := updatedNodes, edges := []\<rparr>;
             s2 = setTimeout (SetEdges newEdges) 200 s1
         in restoringEffect s2))"

definition callDeleteNode :: "jsstring \<Rightarrow> component \<Rightarrow> component" where
  "callDeleteNode nodeId s = restoringEffect (deleteNode nodeId s)"

text \<open>
  The callbacks. The first timer of a generation sets the edges and starts the second,
  which sets them again \<open>if (newEdges.length > 0)\<close>; the timer of the effect sets the
  restored edges. Every write of the edge list is followed by a render, hence by the
  effect.
\<close>

fun runCallback :: "callback \<Rightarrow> component \<Rightarrow> component" where
  "runCallback (SetEdges newEdges) s =
     restoringEffect (setTimeout (SetEdgesAgain newEdges) 300 (s\<lparr>edges := newEdges\<rparr>))"
| "runCallback (SetEdgesAgain newEdges) s =
     (if length newEdges > 0 then restoringEffect (s\<lparr>edges := newEdges\<rparr>) else s)"
| "runCallback (RestoreEdges newEdges) s = restoringEffect (s\<lparr>edges := newEdges\<rparr>)"

text \<open>
  \<open>fire i\<close>: the pending timer number \<open>i\<close> fires. The clock is at least the time at which
  the timer was due; the timers that the callback and the effect start are counted from
  there.
\<close>

definition fire :: "nat \<Rightarrow> component \<Rightarrow> component" where
  "fire i s =
     (if i < length (timers s)
      then runCallback (callback (timers s ! i))
             (s\<lparr>clock := max (clock s) (due (timers s ! i)),
                timers := take i (timers s) @ drop (i + 1) (timers s)\<rparr>)
      else s)"

text \<open>
  Time passes: \<open>elapse d\<close> fires the timers that are due within the next \<open>d\<close> ms, the
  earlier one first and, of two that are due together, the one that was started first
  (\<open>earliest\<close>), including those that are started on the way. Each firing removes one
  timer and starts at most two, of kinds that start fewer (\<open>weight\<close>), which is why
  this ends.

  In a browser a timer fires at its time or somewhat later, and the timer of the effect
  is started a render after the handler's. After a generation of at least two steps the
  restoring write and the second write of the generation are both due 500 ms after the
  call; here the restoring write comes first, in a browser either may. The two carry
  the same links under different ids. For statements that must not depend on this
  order there is the event \<open>Fire\<close> below, in which any pending timer fires.
\<close>

fun earliest :: "timer list \<Rightarrow> nat" where
  "earliest [] = 0"
| "earliest [t] = 0"
| "earliest (t # u # ts) =
     (if due t \<le> due ((u # ts) ! earliest (u # ts)) then 0 else Suc (earliest (u # ts)))"

fun weight :: "callback \<Rightarrow> nat" where
  "weight (SetEdges newEdges) = 3"
| "weight (SetEdgesAgain newEdges) = 1"
| "weight (RestoreEdges newEdges) = (if newEdges = [] then 2 else 1)"

function fireDue :: "nat \<Rightarrow> component \<Rightarrow> component" where
  "fireDue limit s =
     (if timers s \<noteq> [] \<and> due (timers s ! earliest (timers s)) \<le> limit
      then fireDue limit (fire (earliest (timers s)) s)
      else s)"
  by pat_completeness auto
termination
proof (relation "measure (\<lambda>(limit, s). sum_list (map (\<lambda>t. weight (callback t)) (timers s)))", goal_cases)
  case 1
  show ?case by simp
next
  case (2 limit s)
  let ?w = "\<lambda>s. sum_list (map (\<lambda>t. weight (callback t)) (timers s))"
  let ?i = "earliest (timers s)"
  let ?u = "s\<lparr>clock := max (clock s) (due (timers s ! ?i)),
              timers := take ?i (timers s) @ drop (?i + 1) (timers s)\<rparr>"
  have e: "ts \<noteq> [] \<Longrightarrow> earliest ts < length ts" for ts
    by (induction ts rule: earliest.induct) auto
  have eff: "?w (restoringEffect u) \<le> ?w u + (if edges u = [] then 1 else 0)" for u
    by (simp add: restoringEffect_def setTimeout_def Let_def)
  have cb: "?w (runCallback c u) < ?w u + weight c" for c u
  proof (cases c)
    case (SetEdges es)
    from eff [of "setTimeout (SetEdgesAgain es) 300 (u\<lparr>edges := es\<rparr>)"]
    show ?thesis by (simp add: SetEdges setTimeout_def split: if_splits)
  next
    case (SetEdgesAgain es)
    from eff [of "u\<lparr>edges := es\<rparr>"] show ?thesis by (simp add: SetEdgesAgain split: if_splits)
  next
    case (RestoreEdges es)
    from eff [of "u\<lparr>edges := es\<rparr>"] show ?thesis by (simp add: RestoreEdges split: if_splits)
  qed
  from 2 have i: "?i < length (timers s)" by (simp add: e)
  have "?w s = ?w ?u + weight (callback (timers s ! ?i))"
    using arg_cong [where f = "\<lambda>l. sum_list (map (\<lambda>t. weight (callback t)) l)", OF id_take_nth_drop [OF i]]
    by simp
  moreover have "fire ?i s = runCallback (callback (timers s ! ?i)) ?u"
    using i by (simp add: fire_def)
  ultimately show ?case using cb [of "callback (timers s ! ?i)" ?u] by simp
qed

declare fireDue.simps [simp del]

definition elapse :: "nat \<Rightarrow> component \<Rightarrow> component" where
  "elapse d s = (fireDue (clock s + d) s)\<lparr>clock := clock s + d\<rparr>"

text \<open>
  What can happen to the component: a call of one of the operations, the passing of
  time, or the firing of one pending timer out of turn. Adding a node by hand,
  connecting two nodes, editing a label and the interactions of the diagram library are
  not modelled.
\<close>

datatype event =
    Generate "jsstring list" bool
  | GenerateComplex "entry list"
  | Rearrange bool
  | Delete jsstring
  | Wait nat
  | Fire nat

fun occur :: "event \<Rightarrow> component \<Rightarrow> component" where
  "occur (Generate steps isHorizontal) s = callGenerateFlowFromSteps steps isHorizontal s"
| "occur (GenerateComplex structure) s = callGenerateComplexFlowchart structure s"
| "occur (Rearrange isHorizontal) s = callRearrangeFlowchart isHorizontal s"
| "occur (Delete nodeId) s = callDeleteNode nodeId s"
| "occur (Wait d) s = elapse d s"
| "occur (Fire i) s = fire i s"

fun run :: "event list \<Rightarrow> component \<Rightarrow> component" where
  "run [] s = s"
| "run (e # es) s = run es (occur e s)"

text \<open>
  The edge list that a callback writes, and what it means for an edge list to refer to
  the nodes of a node list. \<open>pendingRefer\<close>: every pending write refers to the nodes
  that are there now.
\<close>

fun payload :: "callback \<Rightarrow> edge list" where
  "payload (SetEdges newEdges) = newEdges"
| "payload (SetEdgesAgain newEdges) = newEdges"
| "payload (RestoreEdges newEdges) = newEdges"

definition refersTo :: "node list \<Rightarrow> edge list \<Rightarrow> bool" where
  "refersTo ns es \<longleftrightarrow>
     (\<forall>e \<in> set es. source e \<in> set (map node_id ns) \<and> target e \<in> set (map node_id ns))"

definition pendingRefer :: "component \<Rightarrow> bool" where
  "pendingRefer s \<longleftrightarrow> (\<forall>t \<in> set (timers s). refersTo (nodes s) (payload (callback t)))"

definition wellLinked :: "component \<Rightarrow> bool" where
  "wellLinked s \<longleftrightarrow> edgesReferToNodes s \<and> pendingRefer s"

text \<open>
  A run is undisturbed when every generation starts with no timer pending and every
  deletion removes a node that no pending write links. Rearranging, waiting and the
  firing of timers are always allowed.
\<close>

fun allowed :: "event \<Rightarrow> component \<Rightarrow> bool" where
  "allowed (Generate steps isHorizontal) s \<longleftrightarrow> timers s = []"
| "allowed (GenerateComplex structure) s \<longleftrightarrow> timers s = []"
| "allowed (Delete nodeId) s \<longleftrightarrow>
     (\<forall>t \<in> set (timers s). \<forall>e \<in> set (payload (callback t)). source e \<noteq> nodeId \<and> target e \<noteq> nodeId)"
| "allowed (Rearrange isHorizontal) s \<longleftrightarrow> True"
| "allowed (Wait d) s \<longleftrightarrow> True"
| "allowed (Fire i) s \<longleftrightarrow> True"

fun undisturbed :: "event list \<Rightarrow> component \<Rightarrow> bool" where
  "undisturbed [] s \<longleftrightarrow> True"
| "undisturbed (e # es) s \<longleftrightarrow> allowed e s \<and> undisturbed es (occur e s)"

text \<open>
  The state after the component has mounted: the initial values of the state hooks and
  the welcome node that the mount effect adds. (The check of the connection to the
  model server, which can set the error text, is left out.)
\<close>

definition welcomeNode :: node where
  "welcomeNode =
     \<lparr>node_id = ascii ''welcome'', position = \<lparr>x_of = 250, y_of = 150\<rparr>,
      label =
     [1044, 1086, 1073, 1088, 1086, 32, 1087, 1086, 1078, 1072, 1083, 1086, 1074, 1072,
      1090, 1100, 33, 32, 10, 1044, 1086, 1073, 1072, 1074, 1100, 1090, 1077, 32, 1085,
      1086, 1074, 1099, 1077, 32, 1073, 1083, 1086, 1082, 1080, 32, 1080, 1083, 1080, 32,
      1089, 1086, 1079, 1076, 1072, 1081, 1090, 1077, 32, 1073, 1083, 1086, 1082, 45, 1089,
      1093, 1077, 1084, 1091, 32, 1089, 32, 1087, 1086, 1084, 1086, 1097, 1100, 1102, 32,
      1095, 1072, 1090, 1072, 32, 1080, 1083, 1080, 32, 1087, 1088, 1103, 1084, 1086, 1075,
      1086, 32, 1074, 1074, 1086, 1076, 1072, 46]
\<rparr>"

definition mountedComponent :: component where
  "mountedComponent =
     \<lparr>chatHistory = [], input = [], chatInput = [], loading = False, error = [],
      modelType = Ollama, fetches = 0, nodes = [welcomeNode], edges = [], nextNodeId = 1,
      clock = 0, timers = []\<rparr>"


text \<open>Inputs for worked examples: tests that find no orientation word, and an answer of two step lines.\<close>

definition noOrientationWord :: orientationTests where
  "noOrientationWord =
     \<lparr>verticalCommand = (\<lambda>t. False), horizontalCommand = (\<lambda>t. False),
      verticalWord = (\<lambda>t. False), horizontalWord = (\<lambda>t. False)\<rparr>"

definition twoStepAnswer :: jsstring where
  "twoStepAnswer =
     [1064, 1072, 1075, 32, 49, 58, 32, 97, 10, 1064, 1072, 1075, 32, 50, 58, 32, 98]"

text \<open>
  The order of the fallback splits in the words of the specification, to compare the code
  with: the newline split, then the dash split if it yields more than one piece, then the
  period split, then the comma split, each taken when it yields a step, and the whole
  trimmed input when none does.
\<close>

definition specFallbackSteps :: "jsstring \<Rightarrow> jsstring list" where
  "specFallbackSteps inp =
     (if splitTrim 10 inp \<noteq> [] then splitTrim 10 inp
      else if length (splitTrim 45 inp) > 1 then splitTrim 45 inp
      else if splitTrim 46 inp \<noteq> [] then splitTrim 46 inp
      else if splitTrim 44 inp \<noteq> [] then splitTrim 44 inp
      else [trim inp])"

text \<open>
  Runs of the editable component for worked examples: a chain of three generated steps
  with all its deferred writes landed; the middle and then the last node of it deleted
  100 ms apart; and the second node of a chain of two deleted 100 ms after the
  generation, before its edges have arrived.
\<close>

definition threeSteps :: "jsstring list" where
  "threeSteps = [ascii ''a'', ascii ''b'', ascii ''c'']"

definition chainOfThree :: component where
  "chainOfThree = run [Generate threeSteps False, Wait 1000] mountedComponent"

definition twoDeletions :: "event list" where
  "twoDeletions =
     [Generate threeSteps False, Wait 1000, Delete (ascii ''node-1''), Wait 100,
      Delete (ascii ''node-2''), Wait 1000]"

definition earlyDeletion :: "event list" where
  "earlyDeletion =
     [Generate [ascii ''a'', ascii ''b''] False, Wait 100, Delete (ascii ''node-1''), Wait 1000]"


section \<open>Verification\<close>

subsection \<open>Decimal indices and the two edge loops\<close>

lemma readShow: "foldl (\<lambda>a d. 10 * a + (d - 48)) 0 (showNat n) = n"
proof (induction n rule: showNat.induct)
  case (1 n)
  show ?case
  proof (cases "n < 10")
    case True
    then show ?thesis by (simp add: showNat.simps)
  next
    case False
    then have "showNat n = showNat (n div 10) @ [48 + n mod 10]"
      by (subst showNat.simps) simp
    with 1 False show ?thesis by simp
  qed
qed

lemma showNat_inj: "showNat m = showNat n \<Longrightarrow> m = n"
  by (metis readShow)

lemma concat_prev:
  "concat (map (\<lambda>(i, x). if i > 0 then [f (i - 1) i] else []) (enumerate 0 xs))
     = map (\<lambda>i. f i (i + 1)) [0 ..< length xs - 1]"
proof (induction xs rule: rev_induct)
  case Nil
  show ?case by simp
next
  case (snoc x xs)
  show ?case
  proof (cases "length xs")
    case 0
    then show ?thesis by simp
  next
    case (Suc k)
    with snoc show ?thesis by (simp add: enumerate_append_eq)
  qed
qed

subsection \<open>What generateFlowFromSteps builds\<close>

lemma nid_inj: "ascii ''node-'' @ showNat i = ascii ''node-'' @ showNat j \<longleftrightarrow> i = j"
  by (auto dest: showNat_inj)

lemma length_stepNodes: "length (stepNodes v h steps) = length (processedSteps steps)"
  by (simp add: stepNodes_def)

lemma stepEdges_same: "stepEdges Simple steps = stepEdges Editable steps"
  using concat_prev [of "\<lambda>i j. linkEdge i j (ascii ''node-'' @ showNat i) (ascii ''node-'' @ showNat j)"
      "processedSteps steps"]
  by simp

lemma stepEdges_eq:
  "stepEdges v steps =
     map (\<lambda>i. linkEdge i (i + 1) (ascii ''node-'' @ showNat i) (ascii ''node-'' @ showNat (i + 1)))
       [0 ..< length (processedSteps steps) - 1]"
  by (cases v) (simp_all only: stepEdges_same, simp_all)

lemma generate_nodes: "nodes (generateFlowFromSteps v steps h s) = stepNodes v h steps"
  by (cases v) (simp_all add: Let_def)

lemma generate_edges: "edges (generateFlowFromSteps v steps h s) = stepEdges v steps"
  by (cases v) (simp_all add: Let_def)

lemma generate_nextNodeId:
  "nextNodeId (generateFlowFromSteps v steps h s) = length (processedSteps steps) + 1"
  by (cases v) (simp_all add: Let_def)

lemma stepNodes_nth:
  "i < length (processedSteps steps) \<Longrightarrow>
     stepNodes v h steps ! i = stepNode v h i (processedSteps steps ! i)"
  by (simp add: stepNodes_def nth_enumerate_eq)

lemma filter_eq_upt: "filter (\<lambda>j. j = i) [0 ..< m] = (if i < m then [i] else [])"
  by (induction m) auto

lemma one_edge:
  assumes "i < m"
  shows "length (filter (\<lambda>e. source e = ascii ''node-'' @ showNat i \<and> target e = ascii ''node-'' @ showNat (i + 1))
     (map (\<lambda>i. linkEdge i (i + 1) (ascii ''node-'' @ showNat i) (ascii ''node-'' @ showNat (i + 1))) [0 ..< m])) = 1"
proof -
  have "filter (\<lambda>e. source e = ascii ''node-'' @ showNat i \<and> target e = ascii ''node-'' @ showNat (i + 1))
     (map (\<lambda>i. linkEdge i (i + 1) (ascii ''node-'' @ showNat i) (ascii ''node-'' @ showNat (i + 1))) [0 ..< m])
     = map (\<lambda>i. linkEdge i (i + 1) (ascii ''node-'' @ showNat i) (ascii ''node-'' @ showNat (i + 1)))
         (filter (\<lambda>j. j = i) [0 ..< m])"
    by (auto simp: filter_map o_def linkEdge_def dest: showNat_inj intro!: arg_cong [where f = "map _"] filter_cong)
  with assms show ?thesis by (simp add: filter_eq_upt)
qed



lemma generate_frame:
  "generateFlowFromSteps v steps h s
     = s\<lparr>nodes := stepNodes v h steps, edges := stepEdges v steps,
         nextNodeId := length (processedSteps steps) + 1\<rparr>"
  by (cases v) (simp_all add: Let_def)

lemma stepEdges_nth:
  "i + 1 < length (processedSteps steps) \<Longrightarrow>
     stepEdges v steps ! i
       = linkEdge i (i + 1) (ascii ''node-'' @ showNat i) (ascii ''node-'' @ showNat (i + 1))"
  by (simp add: stepEdges_eq)

lemma last_dropWhile: "dropWhile P xs \<noteq> [] \<Longrightarrow> last (dropWhile P xs) = last xs"
  by (induction xs) auto

lemma trim_ends:
  assumes "trim s \<noteq> []"
  shows "\<not> isWhiteSpace (hd (trim s))" and "\<not> isWhiteSpace (last (trim s))"
proof -
  let ?a = "dropWhile isWhiteSpace s"
  let ?b = "dropWhile isWhiteSpace (rev ?a)"
  from assms have b: "?b \<noteq> []" by (simp add: trim_def)
  have a: "?a \<noteq> []"
  proof
    assume e: "?a = []"
    have "?b = []" unfolding e by simp
    with b show False by simp
  qed
  have "hd (trim s) = last ?b" using b by (simp add: trim_def hd_rev)
  also have "\<dots> = last (rev ?a)" using b by (rule last_dropWhile)
  also have "\<dots> = hd ?a" using a by (simp add: last_rev)
  finally show "\<not> isWhiteSpace (hd (trim s))" using a hd_dropWhile [of isWhiteSpace s] by simp
  have "last (trim s) = hd ?b" using b by (simp add: trim_def last_rev)
  then show "\<not> isWhiteSpace (last (trim s))" using b hd_dropWhile [of isWhiteSpace "rev ?a"] by simp
qed

lemma label_stepNodes: "map label (stepNodes v h steps) = processedSteps steps"
  by (simp add: stepNodes_def stepNode_def enumerate_eq_zip o_def case_prod_unfold)

lemma ids_stepNodes:
  "map node_id (stepNodes v h steps)
     = map (\<lambda>i. ascii ''node-'' @ showNat i) [0 ..< length (processedSteps steps)]"
proof (rule nth_equalityI)
  show "length (map node_id (stepNodes v h steps))
      = length (map (\<lambda>i. ascii ''node-'' @ showNat i) [0 ..< length (processedSteps steps)])"
    by (simp add: stepNodes_def)
next
  fix i
  assume "i < length (map node_id (stepNodes v h steps))"
  then have "i < length (processedSteps steps)" by (simp add: stepNodes_def)
  then show "map node_id (stepNodes v h steps) ! i
      = map (\<lambda>i. ascii ''node-'' @ showNat i) [0 ..< length (processedSteps steps)] ! i"
    by (simp add: length_stepNodes stepNodes_nth stepNode_def)
qed

lemma distinct_ids: "distinct (map (\<lambda>i. ascii ''node-'' @ showNat i) [0 ..< n])"
  by (simp add: distinct_map inj_on_def) (auto dest: showNat_inj)


subsection \<open>Evaluation on small inputs\<close>

lemma showNat_digit: "n < 10 \<Longrightarrow> showNat n = [48 + n]"
  by (simp add: showNat.simps)

lemmas clean_eval = ascii_def fence_def fenceMermaid_def cleanStep_def trim_def isWhiteSpace_def
  matchGraph_def ciLetter_def

lemma clean_markers:
  "cleanStep (ascii ''```mermaid'') = []"
  "cleanStep (ascii ''```'') = []"
  "cleanStep (ascii ''graph TD'') = []"
  "cleanStep (ascii ''graph LR'') = []"
  by (simp_all add: clean_eval)

lemma clean_a: "cleanStep (ascii ''a'') = ascii ''a''"
  by (simp add: clean_eval)

lemma clean_b: "cleanStep (ascii ''b'') = ascii ''b''"
  by (simp add: clean_eval)

lemma processed_a_fence: "processedSteps [ascii ''a'', ascii ''```''] = [ascii ''a'']"
  by (simp add: processedSteps_def clean_markers clean_a) (simp add: ascii_def)

lemma processed_a_b: "processedSteps [ascii ''a'', ascii ''b''] = [ascii ''a'', ascii ''b'']"
  by (simp add: processedSteps_def clean_a clean_b) (simp add: ascii_def)

subsection \<open>Boxes and connectors of the drawn flowchart\<close>

lemma placeBoxes_lengths:
  "length (fst (placeBoxes h tw th index cx cy sizes)) = length sizes
   \<and> length (snd (placeBoxes h tw th index cx cy sizes))
       = (if index > 0 then length sizes else length sizes - 1)"
  by (induction sizes arbitrary: index cx cy) (auto simp: Let_def)

lemma placeBoxes_box:
  "i < length sizes \<Longrightarrow>
   fst (placeBoxes h tw th index cx cy sizes) ! i
     = (if h
        then \<lparr>box_x = cx + (\<Sum>(w, ht) \<leftarrow> take i sizes. w + 50),
              box_y = th div 2 - snd (sizes ! i) div 2,
              box_width = fst (sizes ! i), box_height = snd (sizes ! i)\<rparr>
        else \<lparr>box_x = tw div 2 - fst (sizes ! i) div 2,
              box_y = cy + (\<Sum>(w, ht) \<leftarrow> take i sizes. ht + 50),
              box_width = fst (sizes ! i), box_height = snd (sizes ! i)\<rparr>)"
proof (induction sizes arbitrary: i index cx cy)
  case Nil
  then show ?case by simp
next
  case (Cons a sizes)
  obtain w ht where a: "a = (w, ht)" by (cases a)
  show ?case
  proof (cases i)
    case 0
    then show ?thesis by (simp add: a Let_def)
  next
    case (Suc k)
    with Cons.prems have "k < length sizes" by simp
    from Cons.IH [OF this] Suc show ?thesis by (simp add: a Let_def algebra_simps)
  qed
qed


lemma placeBoxes_connector_later:
  "index > 0 \<Longrightarrow> i < length sizes \<Longrightarrow>
   snd (placeBoxes h tw th index cx cy sizes) ! i
     = connectorTo h tw th (fst (placeBoxes h tw th index cx cy sizes) ! i)"
proof (induction sizes arbitrary: i index cx cy)
  case Nil
  then show ?case by simp
next
  case (Cons a sizes)
  obtain w ht where a: "a = (w, ht)" by (cases a)
  show ?case
  proof (cases i)
    case 0
    with Cons.prems show ?thesis by (simp add: a Let_def connectorTo_def)
  next
    case (Suc k)
    with Cons.prems have "k < length sizes" by simp
    from Cons.IH [OF _ this, of "index + 1"] Suc Cons.prems(1) show ?thesis
      by (simp add: a Let_def)
  qed
qed

lemma placeBoxes_connector:
  assumes "i + 1 < length sizes"
  shows "snd (placeBoxes h tw th 0 cx cy sizes) ! i
     = connectorTo h tw th (fst (placeBoxes h tw th 0 cx cy sizes) ! (i + 1))"
proof (cases sizes)
  case Nil
  with assms show ?thesis by simp
next
  case (Cons a rest)
  obtain w ht where a: "a = (w, ht)" by (cases a)
  from assms Cons have "i < length rest" by simp
  from placeBoxes_connector_later [OF _ this, of 1] show ?thesis
    by (simp add: Cons a Let_def)
qed

lemma sum_take_Suc:
  "i < length xs \<Longrightarrow> sum_list (map f (take (Suc i) xs)) = sum_list (map f (take i xs)) + f (xs ! i)"
  by (simp add: take_Suc_conv_app_nth)

lemma svg_counts:
  "length (fst (generateSvgFlowchart steps h)) = length steps"
  "length (snd (generateSvgFlowchart steps h)) = length steps - 1"
  by (simp_all add: generateSvgFlowchart_def Let_def placeBoxes_lengths)

lemma svg_box:
  assumes "i < length steps"
  shows "fst (generateSvgFlowchart steps h) ! i
     = (if h
        then \<lparr>box_x = 50 + (\<Sum>step \<leftarrow> take i steps. fst (nodeSize step) + 50),
              box_y = totalHeight h (map nodeSize steps) div 2 - snd (nodeSize (steps ! i)) div 2,
              box_width = fst (nodeSize (steps ! i)), box_height = snd (nodeSize (steps ! i))\<rparr>
        else \<lparr>box_x = totalWidth h (map nodeSize steps) div 2 - fst (nodeSize (steps ! i)) div 2,
              box_y = 50 + (\<Sum>step \<leftarrow> take i steps. snd (nodeSize step) + 50),
              box_width = fst (nodeSize (steps ! i)), box_height = snd (nodeSize (steps ! i))\<rparr>)"
proof -
  from assms have "i < length (map nodeSize steps)" by simp
  from placeBoxes_box [OF this] assms show ?thesis
    by (simp add: generateSvgFlowchart_def Let_def take_map [symmetric] o_def case_prod_unfold
        del: take_map)
qed

lemma svg_connector:
  assumes "i + 1 < length steps"
  shows "snd (generateSvgFlowchart steps h) ! i
     = (if h
        then \<lparr>from_x = box_x (fst (generateSvgFlowchart steps h) ! i)
                        + box_width (fst (generateSvgFlowchart steps h) ! i),
              from_y = totalHeight h (map nodeSize steps) div 2,
              to_x = box_x (fst (generateSvgFlowchart steps h) ! (i + 1)),
              to_y = totalHeight h (map nodeSize steps) div 2\<rparr>
        else \<lparr>from_x = totalWidth h (map nodeSize steps) div 2,
              from_y = box_y (fst (generateSvgFlowchart steps h) ! i)
                        + box_height (fst (generateSvgFlowchart steps h) ! i),
              to_x = totalWidth h (map nodeSize steps) div 2,
              to_y = box_y (fst (generateSvgFlowchart steps h) ! (i + 1))\<rparr>)"
proof -
  from assms have i: "i < length steps" and j: "i + 1 < length (map nodeSize steps)" by simp_all
  have c: "snd (generateSvgFlowchart steps h) ! i
      = connectorTo h (totalWidth h (map nodeSize steps)) (totalHeight h (map nodeSize steps))
          (fst (generateSvgFlowchart steps h) ! (i + 1))"
    using placeBoxes_connector [OF j] by (simp add: generateSvgFlowchart_def Let_def)
  show ?thesis
    unfolding c connectorTo_def svg_box [OF assms] svg_box [OF i]
    using i by (simp add: sum_take_Suc)
qed

lemma maximum_even: "(\<forall>x \<in> set xs. even x) \<Longrightarrow> even (maximum xs)"
  by (induction xs) (auto simp: maximum_def max_def)

lemma nodeSize_even: "even (fst (nodeSize step)) \<and> even (snd (nodeSize step))"
  by (simp add: nodeSize_def Let_def max_def)

lemma totals_even:
  "even (totalWidth h (map nodeSize steps)) \<and> even (totalHeight h (map nodeSize steps))"
proof -
  have w: "\<forall>x \<in> set (map fst (map nodeSize steps)). even x"
    and ht: "\<forall>x \<in> set (map snd (map nodeSize steps)). even x"
    using nodeSize_even by auto
  have "even (sum_list xs)" if "\<forall>x \<in> set xs. even x" for xs :: "int list"
    using that by (induction xs) auto
  with w ht maximum_even [OF w] maximum_even [OF ht] show ?thesis
    by (simp add: totalWidth_def totalHeight_def)
qed

subsection \<open>Edges of a sequential flowchart\<close>




subsection \<open>Sequential layout\<close>

text \<open>
  C4, as the code has it. In both variants built on the diagram library, node \<open>i\<close> of a
  generated flowchart is placed, in vertical mode, at \<open>x = 250\<close> and
  \<open>y = i * (nodeHeight + gap) + 50\<close>, and in horizontal mode at \<open>y = 100\<close> and
  \<open>x = i * (nodeWidth + gap) + 100\<close>, where \<open>nodeWidth\<close>, \<open>nodeHeight\<close>, \<open>gap\<close> are
  180, 70, 80 in the editable variant and 200, 80, 100 in the simplified one. In the
  drawn variant the nodes have sizes of their own: along the flow, box \<open>i\<close> starts at 50
  plus the sizes of the boxes before it and a gap of 50 after each; across the flow it is
  centred in the drawing.
\<close>

theorem sequential_layout:
  "(\<forall>i. i < length (nodes (generateFlowFromSteps v steps isHorizontal s)) \<longrightarrow>
     position (nodes (generateFlowFromSteps v steps isHorizontal s) ! i)
       = (if isHorizontal
          then \<lparr>x_of = int i * (nodeWidth v + gap v) + 100, y_of = 100\<rparr>
          else \<lparr>x_of = 250, y_of = int i * (nodeHeight v + gap v) + 50\<rparr>))
   \<and> (\<forall>i. i < length steps \<longrightarrow>
     fst (generateSvgFlowchart steps isHorizontal) ! i
       = (if isHorizontal
          then \<lparr>box_x = 50 + (\<Sum>step \<leftarrow> take i steps. fst (nodeSize step) + 50),
                box_y = totalHeight isHorizontal (map nodeSize steps) div 2
                          - snd (nodeSize (steps ! i)) div 2,
                box_width = fst (nodeSize (steps ! i)), box_height = snd (nodeSize (steps ! i))\<rparr>
          else \<lparr>box_x = totalWidth isHorizontal (map nodeSize steps) div 2
                          - fst (nodeSize (steps ! i)) div 2,
                box_y = 50 + (\<Sum>step \<leftarrow> take i steps. snd (nodeSize step) + 50),
                box_width = fst (nodeSize (steps ! i)), box_height = snd (nodeSize (steps ! i))\<rparr>))"
  by (simp add: generate_nodes length_stepNodes stepNodes_nth stepNode_def sequentialPosition_def
      svg_box)

theorem sequential_layout_witness:
  "1 < length (nodes (generateFlowFromSteps Simple [ascii ''a'', ascii ''b''] False initialApp))
   \<and> position (nodes (generateFlowFromSteps Simple [ascii ''a'', ascii ''b''] False initialApp) ! 1)
       = \<lparr>x_of = 250, y_of = 230\<rparr>
   \<and> 1 < length (nodes (generateFlowFromSteps Editable [ascii ''a'', ascii ''b''] True initialApp))
   \<and> position (nodes (generateFlowFromSteps Editable [ascii ''a'', ascii ''b''] True initialApp) ! 1)
       = \<lparr>x_of = 360, y_of = 100\<rparr>
   \<and> 1 < length [ascii ''a'', ascii ''b'']
   \<and> box_y (fst (generateSvgFlowchart [ascii ''a'', ascii ''b''] False) ! 1) = 160"
proof -
  have l: "1 < length (nodes (generateFlowFromSteps v [ascii ''a'', ascii ''b''] h initialApp))" for v h
    by (simp add: generate_nodes length_stepNodes processed_a_b)
  have k: "1 < length [ascii ''a'', ascii ''b'']" by simp
  have z: "nodeSize (ascii ''a'') = (150, 60)"
    by (simp add: nodeSize_def ascii_def maximum_def)
  have y: "box_y (fst (generateSvgFlowchart [ascii ''a'', ascii ''b''] False) ! 1) = 160"
    using sequential_layout [of Simple "[ascii ''a'', ascii ''b'']" False initialApp,
        THEN conjunct2, rule_format, OF k]
    by (simp add: z)
  from sequential_layout [of Simple "[ascii ''a'', ascii ''b'']" False initialApp,
      THEN conjunct1, rule_format, OF l]
    sequential_layout [of Editable "[ascii ''a'', ascii ''b'']" True initialApp,
      THEN conjunct1, rule_format, OF l]
    l [of Simple False] l [of Editable True] k y
  show ?thesis by simp
qed

text \<open>
  C4 as stated has the horizontal mode mirror the vertical one with the same constants, in
  both variants alike. The second node of two is at \<open>(360, 100)\<close> in horizontal mode of the
  editable variant; mirroring its vertical position \<open>(250, 200)\<close> gives \<open>(200, 250)\<close>, and
  the simplified variant puts it at \<open>(400, 100)\<close>.
\<close>

theorem mirrored_layout_counterexample:
  "position (nodes (generateFlowFromSteps Editable [ascii ''a'', ascii ''b''] True initialApp) ! 1)
     \<noteq> spec_mirror (position (nodes (generateFlowFromSteps Editable [ascii ''a'', ascii ''b''] False initialApp) ! 1))
   \<and> position (nodes (generateFlowFromSteps Simple [ascii ''a'', ascii ''b''] True initialApp) ! 1)
     \<noteq> spec_mirror (position (nodes (generateFlowFromSteps Simple [ascii ''a'', ascii ''b''] False initialApp) ! 1))
   \<and> position (nodes (generateFlowFromSteps Editable [ascii ''a'', ascii ''b''] True initialApp) ! 1)
     \<noteq> position (nodes (generateFlowFromSteps Simple [ascii ''a'', ascii ''b''] True initialApp) ! 1)"
  by (simp add: generate_nodes stepNodes_nth processed_a_b stepNode_def sequentialPosition_def
      spec_mirror_def)

subsection \<open>Nodes of a generated flowchart\<close>

lemma trim_clean: "cleanStep step \<noteq> [] \<Longrightarrow>
    \<not> isWhiteSpace (hd (cleanStep step)) \<and> \<not> isWhiteSpace (last (cleanStep step))"
  unfolding cleanStep_def by (rule conjI) (erule trim_ends)+

lemma prefix_fenceMermaid: "prefix fenceMermaid s \<Longrightarrow> prefix fence s"
  by (auto simp: fenceMermaid_def fence_def prefix_def)

lemma stripFences_id: "\<not> includesStr s fence \<Longrightarrow> stripFences s = s"
  by (induction s) (auto dest: prefix_fenceMermaid)

lemma stripFences_before:
  assumes "\<not> includesStr a fence" and "a = [] \<or> last a \<noteq> 96"
  shows "stripFences (a @ r) = a @ stripFences r"
  using assms
proof (induction a)
  case Nil
  show ?case by simp
next
  case (Cons c a)
  from Cons.prems(1) have n: "\<not> prefix fence (c # a)" "\<not> includesStr a fence" by simp_all
  from Cons.prems(2) have l: "a = [] \<or> last a \<noteq> 96" by (cases a) simp_all
  have p: "\<not> prefix fence (c # a @ r)"
  proof (cases a)
    case Nil
    with Cons.prems(2) show ?thesis by (simp add: fence_def)
  next
    case (Cons d a')
    note d = Cons
    show ?thesis
    proof (cases a')
      case Nil
      with d Cons.prems(2) show ?thesis by (simp add: fence_def)
    next
      case (Cons e a'')
      with d n(1) show ?thesis by (simp add: fence_def)
    qed
  qed
  then have "\<not> prefix fenceMermaid (c # a @ r)" by (auto dest: prefix_fenceMermaid)
  with p Cons.IH [OF n(2) l] show ?case by simp
qed

lemma stripFences_mermaid: "stripFences (fenceMermaid @ b) = stripFences b"
  by (simp add: fenceMermaid_def)

lemma stripFences_fence:
  "\<not> prefix (ascii ''mermaid'') b \<Longrightarrow> stripFences (fence @ b) = stripFences b"
  by (simp add: fence_def fenceMermaid_def ascii_def)

lemma matchLetters_Some:
  "matchLetters p s = Some r \<longleftrightarrow> (\<exists>m. s = m @ r \<and> list_all2 ciLetter p m)"
proof (induction p s rule: matchLetters.induct)
  case (1 s)
  show ?case by auto
next
  case (2 p ps)
  show ?case by auto
next
  case (3 p ps c cs)
  show ?case
  proof (cases "ciLetter p c")
    case True
    with 3 show ?thesis by (auto simp: list_all2_Cons1 Cons_eq_append_conv)
  next
    case False
    then show ?thesis by (auto simp: list_all2_Cons1 Cons_eq_append_conv)
  qed
qed

lemma direction_letters:
  assumes "dir = ascii ''td'' \<or> dir = ascii ''lr''" and "list_all2 ciLetter dir d"
  shows "d \<noteq> []" and "\<not> isWhiteSpace (hd d)"
  using assms by (auto simp: ascii_def list_all2_Cons1 ciLetter_def isWhiteSpace_def)

lemma matchGraph_Some:
  assumes "dir = ascii ''td'' \<or> dir = ascii ''lr''"
  shows "matchGraph dir s = Some b \<longleftrightarrow>
     (\<exists>g w d. s = g @ w @ d @ b \<and> list_all2 ciLetter (ascii ''graph'') g
        \<and> w \<noteq> [] \<and> list_all isWhiteSpace w \<and> list_all2 ciLetter dir d)"
proof
  assume "matchGraph dir s = Some b"
  then obtain r1 w0 ws where r1: "matchLetters (ascii ''graph'') s = Some r1"
    and w: "r1 = w0 # ws" "isWhiteSpace w0"
    and d: "matchLetters dir (dropWhile isWhiteSpace ws) = Some b"
    by (auto simp: matchGraph_def split: option.splits list.splits if_splits)
  from r1 obtain g where g: "s = g @ r1" "list_all2 ciLetter (ascii ''graph'') g"
    unfolding matchLetters_Some by blast
  from d obtain d' where d': "dropWhile isWhiteSpace ws = d' @ b" "list_all2 ciLetter dir d'"
    unfolding matchLetters_Some by blast
  let ?w = "w0 # takeWhile isWhiteSpace ws"
  have "r1 = ?w @ d' @ b" using w(1) d'(1) takeWhile_dropWhile_id [of isWhiteSpace ws] by simp
  moreover have "list_all isWhiteSpace ?w" using w(2) by (simp add: list_all_iff) (meson set_takeWhileD)
  ultimately show "\<exists>g w d. s = g @ w @ d @ b \<and> list_all2 ciLetter (ascii ''graph'') g
        \<and> w \<noteq> [] \<and> list_all isWhiteSpace w \<and> list_all2 ciLetter dir d"
    using g d'(2) by blast
next
  assume "\<exists>g w d. s = g @ w @ d @ b \<and> list_all2 ciLetter (ascii ''graph'') g
        \<and> w \<noteq> [] \<and> list_all isWhiteSpace w \<and> list_all2 ciLetter dir d"
  then obtain g w d where s: "s = g @ w @ d @ b" and g: "list_all2 ciLetter (ascii ''graph'') g"
    and w: "w \<noteq> []" "list_all isWhiteSpace w" and d: "list_all2 ciLetter dir d" by blast
  from g have 1: "matchLetters (ascii ''graph'') s = Some (w @ d @ b)"
    unfolding s matchLetters_Some by blast
  from w obtain w0 ws where ws: "w = w0 # ws" "isWhiteSpace w0" "list_all isWhiteSpace ws"
    by (cases w) auto
  from direction_letters [OF assms d] have "dropWhile isWhiteSpace (ws @ d @ b) = d @ b"
    using ws(3) by (cases d) (simp_all add: list_all_iff dropWhile_append)
  moreover from d have "matchLetters dir (d @ b) = Some b" unfolding matchLetters_Some by blast
  ultimately show "matchGraph dir s = Some b" using 1 ws by (simp add: matchGraph_def)
qed

lemma matchGraph_other:
  "c \<noteq> 103 \<Longrightarrow> c \<noteq> 71 \<Longrightarrow> matchGraph dir (c # cs) = None"
  by (simp add: matchGraph_def ascii_def ciLetter_def)

lemma removeFirstGraph_before:
  "103 \<notin> set a \<Longrightarrow> 71 \<notin> set a \<Longrightarrow> removeFirstGraph dir (a @ r) = a @ removeFirstGraph dir r"
  by (induction a) (simp_all add: matchGraph_other)

lemma removeFirstGraph_marker:
  assumes "dir = ascii ''td'' \<or> dir = ascii ''lr''" and "list_all2 ciLetter (ascii ''graph'') g"
    and "w \<noteq> []" and "list_all isWhiteSpace w" and "list_all2 ciLetter dir d"
  shows "removeFirstGraph dir (g @ w @ d @ b) = b"
proof -
  have "matchGraph dir (g @ w @ d @ b) = Some b"
    unfolding matchGraph_Some [OF assms(1)] using assms(2-5) by blast
  moreover from assms(2) obtain c cs where "g = c # cs" by (cases g) (auto simp: ascii_def)
  ultimately show ?thesis by simp
qed

lemma trim_padded:
  assumes "list_all isWhiteSpace u" and "list_all isWhiteSpace v" and "m \<noteq> []"
    and "\<not> isWhiteSpace (hd m)" and "\<not> isWhiteSpace (last m)"
  shows "trim (u @ m @ v) = m"
proof -
  from assms(1,3,4) have a: "dropWhile isWhiteSpace (u @ m @ v) = m @ v"
    by (cases m) (simp_all add: list_all_iff dropWhile_append)
  from assms(2,3,5) have "dropWhile isWhiteSpace (rev v @ rev m) = rev m"
    by (cases "rev m") (auto simp: list_all_iff dropWhile_append last_rev hd_rev)
  with a show ?thesis by (simp add: trim_def)
qed

lemma trim_blank: "list_all isWhiteSpace u \<Longrightarrow> trim u = []"
proof -
  assume "list_all isWhiteSpace u"
  then have d: "dropWhile isWhiteSpace u = []" by (induction u) auto
  show ?thesis unfolding trim_def d by simp
qed

lemma clean_repeated:
  "cleanStep (ascii ''graph TD graph TD'') = ascii ''graph TD''"
  "cleanStep (ascii ''``graph TD`'') = ascii ''```''"
  by (simp_all add: clean_eval)




subsection \<open>Edges refer to existing nodes\<close>

lemma ok_iff:
  "edgesReferToNodes s \<longleftrightarrow>
     (\<forall>e \<in> set (edges s). source e \<in> node_id ` set (nodes s) \<and> target e \<in> node_id ` set (nodes s))"
  by (simp add: edgesReferToNodes_def)

lemma generate_ok: "edgesReferToNodes (generateFlowFromSteps v steps h s)"
proof -
  let ?d = "generateFlowFromSteps v steps h s"
  let ?n = "length (processedSteps steps)"
  have ids: "node_id ` set (nodes ?d) = (\<lambda>i. ascii ''node-'' @ showNat i) ` {0 ..< ?n}"
    using ids_stepNodes [of v h steps] by (metis generate_nodes set_map set_upt)
  have "source e \<in> node_id ` set (nodes ?d) \<and> target e \<in> node_id ` set (nodes ?d)"
    if "e \<in> set (edges ?d)" for e
  proof -
    from that obtain i where i: "i < ?n - 1"
      and e: "e = linkEdge i (i + 1) (ascii ''node-'' @ showNat i) (ascii ''node-'' @ showNat (i + 1))"
      by (auto simp: generate_edges stepEdges_eq)
    from i have "i \<in> {0 ..< ?n}" "i + 1 \<in> {0 ..< ?n}" by auto
    then show ?thesis unfolding ids e linkEdge_def by simp
  qed
  then show ?thesis unfolding ok_iff by blast
qed

lemma complex_nodes:
  "nodes (generateComplexFlowchart structure s)
     = concat (map (\<lambda>(index, node). complexNodes index node) (enumerate 0 structure))"
  and complex_edges:
  "edges (generateComplexFlowchart structure s)
     = concat (map (\<lambda>(index, node). complexEdges index node) (enumerate 0 structure))"
  by (simp_all add: generateComplexFlowchart_def Let_def)

lemma complex_has_node:
  assumes "i < length structure" and "n \<in> set (complexNodes i (structure ! i))"
  shows "n \<in> set (nodes (generateComplexFlowchart structure s))"
  unfolding complex_nodes using assms
  by (auto simp: in_set_enumerate_eq intro!: bexI [where x = "(i, structure ! i)"])

lemma complex_ok: "edgesReferToNodes (generateComplexFlowchart structure s)"
  unfolding ok_iff
proof
  fix e
  assume "e \<in> set (edges (generateComplexFlowchart structure s))"
  then obtain i where i: "i < length structure" and e: "e \<in> set (complexEdges i (structure ! i))"
    by (auto simp: complex_edges in_set_enumerate_eq)
  let ?main = "\<lambda>i. \<lparr>node_id = complexId i ''main'',
       position = \<lparr>x_of = 250, y_of = int i * (80 + 150) + 50\<rparr>,
       label = text_of (structure ! i)\<rparr>"
  have main: "?main j \<in> set (nodes (generateComplexFlowchart structure s))" if "j < length structure" for j
    using that by (rule complex_has_node) (simp add: complexNodes_def)
  from e consider
      (right) "truthy (right_of (structure ! i))" "source e = complexId i ''main''"
        "target e = complexId i ''right''"
    | (below) "truthy (below_of (structure ! i))" "source e = complexId i ''main''"
        "target e = complexId i ''below''"
    | (prev) "i > 0" "source e = complexId (i - 1) ''main''" "target e = complexId i ''main''"
    by (auto simp: complexEdges_def linkEdge_def split: if_splits)
  then show "source e \<in> node_id ` set (nodes (generateComplexFlowchart structure s))
      \<and> target e \<in> node_id ` set (nodes (generateComplexFlowchart structure s))"
  proof cases
    case right
    have "\<lparr>node_id = complexId i ''right'',
               position = \<lparr>x_of = 250 + 200 + 250, y_of = int i * (80 + 150) + 50\<rparr>,
               label = the (right_of (structure ! i))\<rparr> \<in> set (nodes (generateComplexFlowchart structure s))"
      using i by (rule complex_has_node) (simp add: complexNodes_def right)
    from imageI [OF this, of node_id] imageI [OF main [OF i], of node_id] right show ?thesis by simp
  next
    case below
    have "\<lparr>node_id = complexId i ''below'',
               position = \<lparr>x_of = 250, y_of = int i * (80 + 150) + 50 + 80 + 150 div 2\<rparr>,
               label = the (below_of (structure ! i))\<rparr> \<in> set (nodes (generateComplexFlowchart structure s))"
      using i by (rule complex_has_node) (simp add: complexNodes_def below)
    from imageI [OF this, of node_id] imageI [OF main [OF i], of node_id] below show ?thesis by simp
  next
    case prev
    with i have "i - 1 < length structure" by simp
    from imageI [OF main [OF this], of node_id] imageI [OF main [OF i], of node_id] prev
    show ?thesis by simp
  qed
qed

lemma delete_ok:
  assumes "edgesReferToNodes s"
  shows "edgesReferToNodes (deleteNode nodeId s)"
  unfolding ok_iff
proof
  fix e
  assume "e \<in> set (edges (deleteNode nodeId s))"
  then have e: "e \<in> set (edges s)" "source e \<noteq> nodeId" "target e \<noteq> nodeId"
    by (simp_all add: deleteNode_def)
  from assms e(1) obtain n m where n: "n \<in> set (nodes s)" "node_id n = source e"
    and m: "m \<in> set (nodes s)" "node_id m = target e"
    unfolding ok_iff by (auto simp: image_iff)
  from n e(2) have "n \<in> set (nodes (deleteNode nodeId s))" by (simp add: deleteNode_def)
  moreover from m e(3) have "m \<in> set (nodes (deleteNode nodeId s))" by (simp add: deleteNode_def)
  ultimately show "source e \<in> node_id ` set (nodes (deleteNode nodeId s))
      \<and> target e \<in> node_id ` set (nodes (deleteNode nodeId s))"
    using n(2) m(2) by (metis imageI)
qed

lemma rearranged_length: "length (rearrangedNodes v h ns) = length ns"
  by (simp add: rearrangedNodes_def)

lemma rearranged_nth:
  "i < length ns \<Longrightarrow>
     rearrangedNodes v h ns ! i = (ns ! i)\<lparr>position := sequentialPosition v h i\<rparr>"
  by (simp add: rearrangedNodes_def nth_enumerate_eq)

lemma rearranged_ids: "node_id ` set (rearrangedNodes v h ns) = node_id ` set ns"
proof -
  have "map node_id (rearrangedNodes v h ns) = map node_id ns"
    by (rule nth_equalityI) (simp_all add: rearranged_length rearranged_nth)
  then have "set (map node_id (rearrangedNodes v h ns)) = set (map node_id ns)" by simp
  then show ?thesis by simp
qed

lemma rearranged_edges_ok:
  assumes "e \<in> set (rearrangedEdges u)"
  shows "source e \<in> node_id ` set u \<and> target e \<in> node_id ` set u"
proof -
  from assms obtain i where i: "i < length u - 1"
    and e: "e = linkEdge i (i + 1) (node_id (u ! i)) (node_id (u ! (i + 1)))"
    by (auto simp: rearrangedEdges_def)
  from i have "u ! i \<in> set u" "u ! (i + 1) \<in> set u" by simp_all
  then show ?thesis unfolding e linkEdge_def by simp
qed

lemma rearrange_ok:
  assumes "edgesReferToNodes s"
  shows "edgesReferToNodes (rearrangeFlowchart v h s)"
proof (cases "nodes s = []")
  case True
  with assms show ?thesis by (cases v) simp_all
next
  case False
  show ?thesis
  proof (cases v)
    case Simple
    have "edges (rearrangeFlowchart Simple h s) = edges s"
      and "node_id ` set (nodes (rearrangeFlowchart Simple h s)) = node_id ` set (nodes s)"
      using False by (simp_all add: rearranged_ids)
    with assms show ?thesis unfolding Simple ok_iff by simp
  next
    case Editable
    have e: "edges (rearrangeFlowchart Editable h s)
        = rearrangedEdges (rearrangedNodes Editable h (nodes s))"
      and n: "nodes (rearrangeFlowchart Editable h s) = rearrangedNodes Editable h (nodes s)"
      using False by (simp_all add: Let_def)
    show ?thesis unfolding Editable ok_iff e n
      using rearranged_edges_ok [of _ "rearrangedNodes Editable h (nodes s)"] by blast
  qed
qed

subsection \<open>The editable component in time\<close>


lemma set_insertNode: "set (insertNode a bs) = insert a (set bs)"
  by (induction bs) auto

lemma set_sortByPosition: "set (sortByPosition ns) = set ns"
proof -
  have "set (foldl (\<lambda>sorted a. insertNode a sorted) acc ns) = set acc \<union> set ns" for acc
    by (induction ns arbitrary: acc) (auto simp: set_insertNode)
  then show ?thesis by (simp add: sortByPosition_def)
qed

lemma length_insertNode: "length (insertNode a bs) = Suc (length bs)"
  by (induction bs) auto

lemma length_sortByPosition: "length (sortByPosition ns) = length ns"
proof -
  have "length (foldl (\<lambda>sorted a. insertNode a sorted) acc ns) = length acc + length ns" for acc
    by (induction ns arbitrary: acc) (auto simp: length_insertNode)
  then show ?thesis by (simp add: sortByPosition_def)
qed

lemma length_restoredEdges: "length (restoredEdges ms) = length ms - 1"
  by (simp add: restoredEdges_def)

lemma refersTo_restored:
  assumes "set ms \<subseteq> set ns"
  shows "refersTo ns (restoredEdges ms)"
  unfolding refersTo_def
proof
  fix e
  assume "e \<in> set (restoredEdges ms)"
  then obtain i where i: "i < length ms - 1"
    and e: "source e = node_id (ms ! i)" "target e = node_id (ms ! (i + 1))"
    by (auto simp: restoredEdges_def)
  from i have "ms ! i \<in> set ms" "ms ! (i + 1) \<in> set ms" by simp_all
  with assms have "ms ! i \<in> set ns" "ms ! (i + 1) \<in> set ns" by auto
  then show "source e \<in> set (map node_id ns) \<and> target e \<in> set (map node_id ns)"
    unfolding e by simp
qed

lemma ok_refersTo: "edgesReferToNodes s \<longleftrightarrow> refersTo (nodes s) (edges s)"
  by (simp add: edgesReferToNodes_def refersTo_def)


lemma wellLinked_timer:
  assumes "wellLinked s" and "refersTo (nodes s) (payload cb)"
  shows "wellLinked (setTimeout cb delay s)"
  using assms by (simp add: wellLinked_def pendingRefer_def setTimeout_def edgesReferToNodes_def)

lemma wellLinked_effect:
  assumes "wellLinked s"
  shows "wellLinked (restoringEffect s)"
proof -
  have "refersTo (nodes s) (payload (RestoreEdges (restoredEdges (sortByPosition (nodes s)))))"
    by (simp add: refersTo_restored set_sortByPosition)
  from wellLinked_timer [OF assms this] assms show ?thesis
    by (simp add: restoringEffect_def Let_def)
qed

lemma wellLinked_edges:
  assumes "wellLinked s" and "refersTo (nodes s) es"
  shows "wellLinked (s\<lparr>edges := es\<rparr>)"
  using assms by (simp add: wellLinked_def pendingRefer_def edgesReferToNodes_def refersTo_def)

lemma wellLinked_callback:
  assumes "wellLinked s" and "refersTo (nodes s) (payload c)"
  shows "wellLinked (runCallback c s)"
proof (cases c)
  case (SetEdges es)
  with assms have a: "wellLinked (s\<lparr>edges := es\<rparr>)" by (simp add: wellLinked_edges)
  have "wellLinked (setTimeout (SetEdgesAgain es) 300 (s\<lparr>edges := es\<rparr>))"
    using a assms(2) by (intro wellLinked_timer) (simp_all add: SetEdges)
  then show ?thesis unfolding SetEdges by (simp add: wellLinked_effect)
next
  case (SetEdgesAgain es)
  with assms have a: "wellLinked (s\<lparr>edges := es\<rparr>)" by (simp add: wellLinked_edges)
  with assms(1) show ?thesis unfolding SetEdgesAgain by (simp add: wellLinked_effect)
next
  case (RestoreEdges es)
  with assms have a: "wellLinked (s\<lparr>edges := es\<rparr>)" by (simp add: wellLinked_edges)
  then show ?thesis unfolding RestoreEdges by (simp add: wellLinked_effect)
qed

lemma wellLinked_pending:
  assumes "wellLinked s" and "set ts \<subseteq> set (timers s)"
  shows "wellLinked (s\<lparr>clock := c, timers := ts\<rparr>)"
  using assms unfolding wellLinked_def pendingRefer_def edgesReferToNodes_def by auto

lemma wellLinked_fire:
  assumes "wellLinked s"
  shows "wellLinked (fire i s)"
proof (cases "i < length (timers s)")
  case False
  with assms show ?thesis by (simp add: fire_def)
next
  case True
  let ?t = "timers s ! i"
  let ?u = "s\<lparr>clock := max (clock s) (due ?t), timers := take i (timers s) @ drop (i + 1) (timers s)\<rparr>"
  from True have m: "?t \<in> set (timers s)" by simp
  with assms have p: "refersTo (nodes s) (payload (callback ?t))"
    by (simp add: wellLinked_def pendingRefer_def)
  have "set (take i (timers s) @ drop (i + 1) (timers s)) \<subseteq> set (timers s)"
    using set_take_subset [of i "timers s"] set_drop_subset [of "i + 1" "timers s"] by auto
  with assms have u: "wellLinked ?u" by (rule wellLinked_pending)
  from p have "refersTo (nodes ?u) (payload (callback ?t))" by simp
  with u have "wellLinked (runCallback (callback ?t) ?u)" by (rule wellLinked_callback)
  moreover have "fire i s = runCallback (callback ?t) ?u" using True by (simp add: fire_def)
  ultimately show ?thesis by simp
qed

lemma fireDue_stop:
  "timers s = [] \<or> limit < due (timers s ! earliest (timers s)) \<Longrightarrow> fireDue limit s = s"
  by (subst fireDue.simps) auto

lemma fireDue_step:
  "timers s \<noteq> [] \<Longrightarrow> due (timers s ! earliest (timers s)) \<le> limit \<Longrightarrow>
     fireDue limit s = fireDue limit (fire (earliest (timers s)) s)"
  by (subst fireDue.simps) simp

lemma wellLinked_fireDue:
  "wellLinked s \<Longrightarrow> wellLinked (fireDue limit s)"
proof (induction limit s rule: fireDue.induct)
  case (1 limit s)
  show ?case
  proof (cases "timers s \<noteq> [] \<and> due (timers s ! earliest (timers s)) \<le> limit")
    case True
    from 1(1) [OF True wellLinked_fire [OF 1(2)]] True show ?thesis
      by (simp add: fireDue_step)
  next
    case False
    then have "fireDue limit s = s" by (intro fireDue_stop) auto
    with 1(2) show ?thesis by simp
  qed
qed

lemma wellLinked_elapse: "wellLinked s \<Longrightarrow> wellLinked (elapse d s)"
  using wellLinked_fireDue [of s "clock s + d"]
  by (simp add: elapse_def wellLinked_def pendingRefer_def edgesReferToNodes_def)


lemma refersTo_steps: "refersTo (stepNodes Editable h steps) (stepEdges Editable steps)"
  using generate_ok [of Editable steps h initialApp]
  unfolding ok_refersTo generate_nodes generate_edges .

lemma wellLinked_generate:
  assumes "timers s = []"
  shows "wellLinked (callGenerateFlowFromSteps steps h s)"
proof -
  let ?u = "(setTimeout (SetEdges (stepEdges Editable steps)) 200
       (s\<lparr>nodes := [], edges := [], nodes := stepNodes Editable h steps, edges := []\<rparr>))
     \<lparr>nextNodeId := length (processedSteps steps) + 1\<rparr>"
  have "wellLinked ?u"
    using assms refersTo_steps [of h steps]
    by (simp add: wellLinked_def pendingRefer_def edgesReferToNodes_def setTimeout_def)
  then have "wellLinked (restoringEffect ?u)" by (rule wellLinked_effect)
  then show ?thesis by (simp add: callGenerateFlowFromSteps_def Let_def)
qed

lemma wellLinked_complex:
  assumes "timers s = []"
  shows "wellLinked (callGenerateComplexFlowchart structure s)"
proof -
  have "timers (generateComplexFlowchart structure s) = []"
    using assms by (simp add: generateComplexFlowchart_def Let_def)
  with complex_ok [of "structure" s] have "wellLinked (generateComplexFlowchart structure s)"
    by (simp add: wellLinked_def pendingRefer_def)
  then show ?thesis unfolding callGenerateComplexFlowchart_def by (rule wellLinked_effect)
qed

lemma refersTo_ids:
  "node_id ` set ms = node_id ` set ns \<Longrightarrow> refersTo ms es = refersTo ns es"
  by (simp add: refersTo_def)

lemma wellLinked_rearrange:
  assumes "wellLinked s"
  shows "wellLinked (callRearrangeFlowchart h s)"
proof (cases "length (nodes s) = 0")
  case True
  with assms show ?thesis by (simp add: callRearrangeFlowchart_def)
next
  case False
  let ?n = "rearrangedNodes Editable h (nodes s)"
  let ?u = "setTimeout (SetEdges (rearrangedEdges ?n)) 200 (s\<lparr>nodes := ?n, edges := []\<rparr>)"
  have r: "refersTo ?n es = refersTo (nodes s) es" for es
    by (rule refersTo_ids) (rule rearranged_ids)
  have n: "refersTo ?n (rearrangedEdges ?n)"
    unfolding refersTo_def using rearranged_edges_ok [of _ ?n] by simp
  have "wellLinked (s\<lparr>nodes := ?n, edges := []\<rparr>)"
    using assms by (simp add: wellLinked_def pendingRefer_def edgesReferToNodes_def r)
  then have "wellLinked ?u" by (rule wellLinked_timer) (simp add: n)
  then have "wellLinked (restoringEffect ?u)" by (rule wellLinked_effect)
  with False show ?thesis by (simp add: callRearrangeFlowchart_def Let_def)
qed

lemma refersTo_delete:
  assumes "refersTo ns es" and "\<forall>e \<in> set es. source e \<noteq> nodeId \<and> target e \<noteq> nodeId"
  shows "refersTo (filter (\<lambda>node. node_id node \<noteq> nodeId) ns) es"
  unfolding refersTo_def
proof
  fix e
  assume e: "e \<in> set es"
  with assms(1) obtain n m where "n \<in> set ns" "node_id n = source e" "m \<in> set ns" "node_id m = target e"
    unfolding refersTo_def by (auto simp: image_iff)
  moreover from e assms(2) have "source e \<noteq> nodeId" "target e \<noteq> nodeId" by auto
  ultimately have "n \<in> set (filter (\<lambda>node. node_id node \<noteq> nodeId) ns)"
    "m \<in> set (filter (\<lambda>node. node_id node \<noteq> nodeId) ns)"
    and "node_id n = source e" "node_id m = target e" by simp_all
  then show "source e \<in> set (map node_id (filter (\<lambda>node. node_id node \<noteq> nodeId) ns))
      \<and> target e \<in> set (map node_id (filter (\<lambda>node. node_id node \<noteq> nodeId) ns))"
    by (metis imageI set_map)
qed

lemma wellLinked_delete:
  assumes "wellLinked s" and "allowed (Delete nodeId) s"
  shows "wellLinked (callDeleteNode nodeId s)"
proof -
  from assms(1) have "edgesReferToNodes s" by (simp add: wellLinked_def)
  then have e: "edgesReferToNodes (deleteNode nodeId s)" by (rule delete_ok)
  have "refersTo (nodes (deleteNode nodeId s)) (payload (callback t))" if "t \<in> set (timers s)" for t
  proof -
    from assms(1) that have "refersTo (nodes s) (payload (callback t))"
      by (simp add: wellLinked_def pendingRefer_def)
    moreover from assms(2) that
    have "\<forall>e \<in> set (payload (callback t)). source e \<noteq> nodeId \<and> target e \<noteq> nodeId" by simp
    ultimately show ?thesis unfolding deleteNode_def by (simp add: refersTo_delete)
  qed
  moreover have "timers (deleteNode nodeId s) = timers s" by (simp add: deleteNode_def)
  ultimately have "wellLinked (deleteNode nodeId s)" using e by (simp add: wellLinked_def pendingRefer_def)
  then show ?thesis unfolding callDeleteNode_def by (rule wellLinked_effect)
qed

lemma wellLinked_occur:
  assumes "wellLinked s" and "allowed e s"
  shows "wellLinked (occur e s)"
proof (cases e)
  case (Generate steps h)
  with assms(2) show ?thesis by (simp add: wellLinked_generate)
next
  case (GenerateComplex st)
  with assms(2) show ?thesis by (simp add: wellLinked_complex)
next
  case (Rearrange h)
  with assms(1) show ?thesis by (simp add: wellLinked_rearrange)
next
  case (Delete nodeId)
  with assms show ?thesis by (simp only: occur.simps wellLinked_delete)
next
  case (Wait d)
  with assms(1) show ?thesis by (simp add: wellLinked_elapse)
next
  case (Fire i)
  with assms(1) show ?thesis by (simp add: wellLinked_fire)
qed

lemma wellLinked_run:
  "wellLinked s \<Longrightarrow> undisturbed evs s \<Longrightarrow> wellLinked (run evs s)"
  by (induction evs arbitrary: s) (simp_all add: wellLinked_occur)

lemma effect_quiet: "\<not> (2 \<le> length (nodes u) \<and> edges u = []) \<Longrightarrow> restoringEffect u = u"
  by (auto simp: restoringEffect_def)

lemma effect_restore:
  "2 \<le> length (nodes u) \<Longrightarrow> edges u = [] \<Longrightarrow>
     restoringEffect u = setTimeout (RestoreEdges (restoredEdges (sortByPosition (nodes u)))) 500 u"
proof -
  assume a: "2 \<le> length (nodes u)" "edges u = []"
  have "length (restoredEdges (sortByPosition (nodes u))) = length (nodes u) - 1"
    by (simp add: length_restoredEdges length_sortByPosition)
  with a(1) have "0 < length (restoredEdges (sortByPosition (nodes u)))" by simp
  with a show ?thesis by (simp add: restoringEffect_def Let_def)
qed

lemma elapse_quiet: "timers u = [] \<Longrightarrow> elapse d u = u\<lparr>clock := clock u + d\<rparr>"
  by (simp add: elapse_def fireDue_stop)

lemma fire_head:
  "timers u = t # ts \<Longrightarrow>
     fire 0 u = runCallback (callback t) (u\<lparr>clock := max (clock u) (due t), timers := ts\<rparr>)"
  by (simp add: fire_def)

lemma elapse_restore:
  assumes "timers u = [\<lparr>due = t, callback = RestoreEdges es\<rparr>]" and "es \<noteq> []" and "clock u \<le> t"
  shows "elapse d u =
     (if t \<le> clock u + d then u\<lparr>edges := es, clock := clock u + d, timers := []\<rparr>
      else u\<lparr>clock := clock u + d\<rparr>)"
proof (cases "t \<le> clock u + d")
  case False
  with assms(1) show ?thesis by (simp add: elapse_def fireDue_stop)
next
  case True
  let ?v = "u\<lparr>edges := es, clock := t, timers := []\<rparr>"
  have "fire 0 u = ?v"
    using assms by (simp add: fire_head [OF assms(1)] effect_quiet max_def)
  moreover have "fireDue (clock u + d) u = fireDue (clock u + d) (fire (earliest (timers u)) u)"
    using assms(1) True by (intro fireDue_step) simp_all
  moreover have "earliest (timers u) = 0" using assms(1) by simp
  moreover have "fireDue (clock u + d) ?v = ?v" by (rule fireDue_stop) simp
  ultimately show ?thesis using True by (simp add: elapse_def)
qed

lemma deletion_settles:
  assumes "timers c = []"
  shows "elapse d (callDeleteNode nodeId c) =
     (if 2 \<le> length (nodes (deleteNode nodeId c)) \<and> edges (deleteNode nodeId c) = []
      then (if 500 \<le> d
            then (deleteNode nodeId c)
                   \<lparr>edges := restoredEdges (sortByPosition (nodes (deleteNode nodeId c))),
                    clock := clock c + d\<rparr>
            else (deleteNode nodeId c)
                   \<lparr>clock := clock c + d,
                    timers := [\<lparr>due = clock c + 500,
                       callback = RestoreEdges (restoredEdges (sortByPosition (nodes (deleteNode nodeId c))))\<rparr>]\<rparr>)
      else (deleteNode nodeId c)\<lparr>clock := clock c + d\<rparr>)"
proof (cases "2 \<le> length (nodes (deleteNode nodeId c)) \<and> edges (deleteNode nodeId c) = []")
  case False
  then have "callDeleteNode nodeId c = deleteNode nodeId c"
    unfolding callDeleteNode_def by (rule effect_quiet)
  moreover have t: "timers (deleteNode nodeId c) = []" "clock (deleteNode nodeId c) = clock c"
    using assms by (simp_all add: deleteNode_def)
  ultimately show ?thesis using False by (auto simp: elapse_quiet)
next
  case True
  let ?u = "deleteNode nodeId c"
  let ?es = "restoredEdges (sortByPosition (nodes ?u))"
  have t: "timers ?u = []" "clock ?u = clock c"
    using assms by (simp_all add: deleteNode_def)
  have c: "callDeleteNode nodeId c = setTimeout (RestoreEdges ?es) 500 ?u"
    unfolding callDeleteNode_def using True by (intro effect_restore) simp_all
  have ne: "?es \<noteq> []"
    using True length_restoredEdges [of "sortByPosition (nodes ?u)"]
    by (auto simp: length_sortByPosition)
  have tm: "timers (setTimeout (RestoreEdges ?es) 500 ?u) = [\<lparr>due = clock c + 500, callback = RestoreEdges ?es\<rparr>]"
    by (simp add: setTimeout_def t)
  have ck: "clock (setTimeout (RestoreEdges ?es) 500 ?u) = clock c" by (simp add: setTimeout_def t)
  have "elapse d (setTimeout (RestoreEdges ?es) 500 ?u) =
     (if clock c + 500 \<le> clock (setTimeout (RestoreEdges ?es) 500 ?u) + d
      then (setTimeout (RestoreEdges ?es) 500 ?u)\<lparr>edges := ?es,
          clock := clock (setTimeout (RestoreEdges ?es) 500 ?u) + d, timers := []\<rparr>
      else (setTimeout (RestoreEdges ?es) 500 ?u)\<lparr>clock := clock (setTimeout (RestoreEdges ?es) 500 ?u) + d\<rparr>)"
    using tm ne by (rule elapse_restore) (simp add: ck)
  then show ?thesis unfolding c using True t by (simp add: ck setTimeout_def)
qed


lemma fireDue_head:
  assumes "timers u = t # ts" and "ts = [] \<or> due t \<le> due (ts ! earliest ts)" and "due t \<le> limit"
    and "runCallback (callback t) (u\<lparr>clock := max (clock u) (due t), timers := ts\<rparr>) = v"
  shows "fireDue limit u = fireDue limit v"
proof -
  from assms(1,2) have e: "earliest (timers u) = 0" by (cases ts) auto
  have "timers u ! earliest (timers u) = t" unfolding e using assms(1) by simp
  with assms(1,3) have "fireDue limit u = fireDue limit (fire (earliest (timers u)) u)"
    by (intro fireDue_step) simp_all
  then show ?thesis by (simp add: e fire_head [OF assms(1)] assms(4))
qed

lemma nextNodeId_timers:
  "(s\<lparr>timers := t\<rparr>)\<lparr>nextNodeId := k\<rparr> = (s\<lparr>nextNodeId := k\<rparr>)\<lparr>timers := t\<rparr>"
  for s :: component
  by (cases s) simp

lemma length_stepEdges: "length (stepEdges v steps) = length (processedSteps steps) - 1"
  by (simp add: stepEdges_eq)

lemma generation_starts:
  assumes "timers s = []"
  shows "callGenerateFlowFromSteps steps h s
     = s\<lparr>nodes := stepNodes Editable h steps, edges := [],
         nextNodeId := length (processedSteps steps) + 1,
         timers :=
           (if 2 \<le> length (processedSteps steps)
            then [\<lparr>due = clock s + 200, callback = SetEdges (stepEdges Editable steps)\<rparr>,
                  \<lparr>due = clock s + 500,
                   callback = RestoreEdges (restoredEdges (sortByPosition (stepNodes Editable h steps)))\<rparr>]
            else [\<lparr>due = clock s + 200, callback = SetEdges (stepEdges Editable steps)\<rparr>])\<rparr>"
proof -
  let ?b = "s\<lparr>nodes := stepNodes Editable h steps, edges := [],
         nextNodeId := length (processedSteps steps) + 1,
         timers := [\<lparr>due = clock s + 200, callback = SetEdges (stepEdges Editable steps)\<rparr>]\<rparr>"
  have call: "callGenerateFlowFromSteps steps h s = restoringEffect ?b"
    using assms
    by (simp add: callGenerateFlowFromSteps_def Let_def setTimeout_def nextNodeId_timers)
  show ?thesis
  proof (cases "2 \<le> length (processedSteps steps)")
    case True
    then have "restoringEffect ?b
        = setTimeout (RestoreEdges (restoredEdges (sortByPosition (nodes ?b)))) 500 ?b"
      by (intro effect_restore) (simp_all add: length_stepNodes)
    with True show ?thesis unfolding call by (simp add: setTimeout_def)
  next
    case False
    then have "restoringEffect ?b = ?b" by (intro effect_quiet) (simp add: length_stepNodes)
    with False show ?thesis unfolding call by simp
  qed
qed

lemma writes_land:
  assumes "timers u = [\<lparr>due = t1, callback = SetEdges E\<rparr>, \<lparr>due = t2, callback = RestoreEdges RE\<rparr>]"
    and "E \<noteq> []" and "RE \<noteq> []" and "clock u \<le> t1" and "t1 \<le> t2" and "t2 \<le> t1 + 300"
    and "t1 + 300 \<le> limit"
  shows "fireDue limit u = u\<lparr>edges := E, clock := t1 + 300, timers := []\<rparr>"
proof -
  let ?u1 = "u\<lparr>edges := E, clock := t1,
               timers := [\<lparr>due = t2, callback = RestoreEdges RE\<rparr>,
                          \<lparr>due = t1 + 300, callback = SetEdgesAgain E\<rparr>]\<rparr>"
  let ?u2 = "u\<lparr>edges := RE, clock := t2, timers := [\<lparr>due = t1 + 300, callback = SetEdgesAgain E\<rparr>]\<rparr>"
  let ?u3 = "u\<lparr>edges := E, clock := t1 + 300, timers := []\<rparr>"
  have "fireDue limit u = fireDue limit ?u1"
    using assms
    by - (rule fireDue_head [where t = "\<lparr>due = t1, callback = SetEdges E\<rparr>"],
          simp, simp, simp, simp add: effect_quiet setTimeout_def max_def)
  also have "\<dots> = fireDue limit ?u2"
    using assms
    by - (rule fireDue_head [where t = "\<lparr>due = t2, callback = RestoreEdges RE\<rparr>"],
          simp, simp, simp, simp add: effect_quiet max_def)
  also have "\<dots> = fireDue limit ?u3"
    using assms
    by - (rule fireDue_head [where t = "\<lparr>due = t1 + 300, callback = SetEdgesAgain E\<rparr>"],
          simp, simp, simp, simp add: effect_quiet max_def)
  also have "\<dots> = ?u3" by (rule fireDue_stop) simp
  finally show ?thesis .
qed

lemma generation_settles:
  assumes "timers s = []" and "500 \<le> d"
  shows "elapse d (callGenerateFlowFromSteps steps h s)
     = s\<lparr>nodes := stepNodes Editable h steps, edges := stepEdges Editable steps,
         nextNodeId := length (processedSteps steps) + 1, clock := clock s + d\<rparr>"
proof (cases "2 \<le> length (processedSteps steps)")
  case True
  let ?u = "callGenerateFlowFromSteps steps h s"
  let ?E = "stepEdges Editable steps"
  let ?RE = "restoredEdges (sortByPosition (stepNodes Editable h steps))"
  have ne: "?E \<noteq> []" using True length_stepEdges [of Editable steps] by auto
  have "length ?RE = length (processedSteps steps) - 1"
    by (simp add: length_restoredEdges length_sortByPosition length_stepNodes)
  with True have nr: "?RE \<noteq> []" by auto
  have t: "timers ?u = [\<lparr>due = clock s + 200, callback = SetEdges ?E\<rparr>,
                        \<lparr>due = clock s + 500, callback = RestoreEdges ?RE\<rparr>]"
    and c: "clock ?u = clock s"
    using True by (simp_all add: generation_starts [OF assms(1)])
  have "fireDue (clock s + d) ?u = ?u\<lparr>edges := ?E, clock := clock s + 200 + 300, timers := []\<rparr>"
    using t ne nr by (rule writes_land) (use assms(2) c in simp_all)
  then show ?thesis
    using assms(1) True by (simp add: elapse_def c) (simp add: generation_starts [OF assms(1)])
next
  case False
  let ?u = "callGenerateFlowFromSteps steps h s"
  let ?b = "s\<lparr>nodes := stepNodes Editable h steps, edges := [],
         nextNodeId := length (processedSteps steps) + 1\<rparr>"
  have e: "stepEdges Editable steps = []" using False length_stepEdges [of Editable steps] by auto
  have u: "?u = ?b\<lparr>timers := [\<lparr>due = clock s + 200, callback = SetEdges []\<rparr>]\<rparr>"
    using False by (simp add: generation_starts [OF assms(1)] e)
  have q: "restoringEffect v = v" if "nodes v = stepNodes Editable h steps" for v
    using that False by (intro effect_quiet) (simp add: length_stepNodes)
  have "fireDue (clock s + d) ?u
      = fireDue (clock s + d)
          (?b\<lparr>clock := clock s + 200, timers := [\<lparr>due = clock s + 500, callback = SetEdgesAgain []\<rparr>]\<rparr>)"
    unfolding u using assms
    by - (rule fireDue_head [where t = "\<lparr>due = clock s + 200, callback = SetEdges []\<rparr>"],
          simp, simp, simp, simp add: q setTimeout_def max_def)
  also have "\<dots> = fireDue (clock s + d) (?b\<lparr>clock := clock s + 500, timers := []\<rparr>)"
    using assms
    by - (rule fireDue_head [where t = "\<lparr>due = clock s + 500, callback = SetEdgesAgain []\<rparr>"],
          simp, simp, simp, simp add: max_def)
  also have "\<dots> = ?b\<lparr>clock := clock s + 500, timers := []\<rparr>" by (rule fireDue_stop) simp
  finally have f: "fireDue (clock s + d) ?u = ?b\<lparr>clock := clock s + 500, timers := []\<rparr>" .
  have c: "clock ?u = clock s" by (simp add: u)
  show ?thesis unfolding elapse_def c f e using assms(1) by simp
qed

subsection \<open>Runs of the editable component\<close>

lemma clean_c: "cleanStep (ascii ''c'') = ascii ''c''"
  by (simp add: clean_eval)

lemma processed_three: "processedSteps threeSteps = threeSteps"
  by (simp add: threeSteps_def processedSteps_def clean_a clean_b clean_c) (simp add: ascii_def)

lemma node_names:
  "ascii ''node-'' @ showNat 0 = ascii ''node-0''"
  "ascii ''node-'' @ showNat 1 = ascii ''node-1''"
  "ascii ''node-'' @ showNat 2 = ascii ''node-2''"
  "ascii ''node-'' @ showNat (Suc 0) = ascii ''node-1''"
  "ascii ''node-'' @ showNat (Suc (Suc 0)) = ascii ''node-2''"
  by (simp_all add: showNat_digit ascii_def)

lemma names_differ:
  "ascii ''node-0'' \<noteq> ascii ''node-1''" "ascii ''node-1'' \<noteq> ascii ''node-0''"
  "ascii ''node-0'' \<noteq> ascii ''node-2''" "ascii ''node-2'' \<noteq> ascii ''node-0''"
  "ascii ''node-1'' \<noteq> ascii ''node-2''" "ascii ''node-2'' \<noteq> ascii ''node-1''"
  by (simp_all add: ascii_def)

lemma nodes_three:
  "stepNodes Editable False threeSteps =
     [\<lparr>node_id = ascii ''node-0'', position = \<lparr>x_of = 250, y_of = 50\<rparr>, label = ascii ''a''\<rparr>,
      \<lparr>node_id = ascii ''node-1'', position = \<lparr>x_of = 250, y_of = 200\<rparr>, label = ascii ''b''\<rparr>,
      \<lparr>node_id = ascii ''node-2'', position = \<lparr>x_of = 250, y_of = 350\<rparr>, label = ascii ''c''\<rparr>]"
  unfolding stepNodes_def processed_three
  by (simp add: threeSteps_def stepNode_def sequentialPosition_def node_names)

lemma edges_three:
  "stepEdges Editable threeSteps =
     [\<lparr>edge_id = ascii ''edge-0-1'', source = ascii ''node-0'', target = ascii ''node-1''\<rparr>,
      \<lparr>edge_id = ascii ''edge-1-2'', source = ascii ''node-1'', target = ascii ''node-2''\<rparr>]"
proof -
  have "[0 ..< length threeSteps - 1] = [0, 1]" by (simp add: threeSteps_def upt_rec)
  then show ?thesis
    by (simp add: processed_three node_names linkEdge_def) (simp add: showNat_digit ascii_def)
qed

lemma mounted_timers: "timers mountedComponent = []" "clock mountedComponent = 0"
  by (simp_all add: mountedComponent_def)

lemma chain_state:
  "chainOfThree = mountedComponent
     \<lparr>nodes := stepNodes Editable False threeSteps, edges := stepEdges Editable threeSteps,
      nextNodeId := 4, clock := 1000\<rparr>"
  unfolding chainOfThree_def
  by (simp add: generation_settles mounted_timers processed_three) (simp add: threeSteps_def)

lemma chain_fields:
  "timers chainOfThree = []" "clock chainOfThree = 1000"
  "nodes chainOfThree =
     [\<lparr>node_id = ascii ''node-0'', position = \<lparr>x_of = 250, y_of = 50\<rparr>, label = ascii ''a''\<rparr>,
      \<lparr>node_id = ascii ''node-1'', position = \<lparr>x_of = 250, y_of = 200\<rparr>, label = ascii ''b''\<rparr>,
      \<lparr>node_id = ascii ''node-2'', position = \<lparr>x_of = 250, y_of = 350\<rparr>, label = ascii ''c''\<rparr>]"
  "edges chainOfThree =
     [\<lparr>edge_id = ascii ''edge-0-1'', source = ascii ''node-0'', target = ascii ''node-1''\<rparr>,
      \<lparr>edge_id = ascii ''edge-1-2'', source = ascii ''node-1'', target = ascii ''node-2''\<rparr>]"
  unfolding chain_state
  by (simp_all only: nodes_three [symmetric] edges_three [symmetric]) (simp_all add: mounted_timers)

lemma chain_without_middle:
  "nodes (deleteNode (ascii ''node-1'') chainOfThree) =
     [\<lparr>node_id = ascii ''node-0'', position = \<lparr>x_of = 250, y_of = 50\<rparr>, label = ascii ''a''\<rparr>,
      \<lparr>node_id = ascii ''node-2'', position = \<lparr>x_of = 250, y_of = 350\<rparr>, label = ascii ''c''\<rparr>]"
  "edges (deleteNode (ascii ''node-1'') chainOfThree) = []"
  by (simp_all add: deleteNode_def chain_fields names_differ)

lemma restored_two:
  "restoredEdges (sortByPosition
     [\<lparr>node_id = ascii ''node-0'', position = \<lparr>x_of = 250, y_of = 50\<rparr>, label = ascii ''a''\<rparr>,
      \<lparr>node_id = ascii ''node-2'', position = \<lparr>x_of = 250, y_of = 350\<rparr>, label = ascii ''c''\<rparr>])
   = [\<lparr>edge_id = ascii ''edge-auto-0-1'', source = ascii ''node-0'', target = ascii ''node-2''\<rparr>]"
  by (simp add: sortByPosition_def comparePositions_def restoredEdges_def showNat_digit)
     (simp add: ascii_def)

lemma mset_insertNode: "mset (insertNode a bs) = add_mset a (mset bs)"
  by (induction bs) auto

lemma mset_sortByPosition: "mset (sortByPosition ns) = mset ns"
proof -
  have "mset (foldl (\<lambda>sorted a. insertNode a sorted) acc ns) = mset acc + mset ns" for acc
    by (induction ns arbitrary: acc) (auto simp: mset_insertNode)
  then show ?thesis by (simp add: sortByPosition_def)
qed

lemma call_delete_fields:
  "nodes (callDeleteNode nodeId c) = nodes (deleteNode nodeId c)"
  "edges (callDeleteNode nodeId c) = edges (deleteNode nodeId c)"
  by (simp_all add: callDeleteNode_def restoringEffect_def Let_def setTimeout_def)

lemma chain_without_first:
  "nodes (deleteNode (ascii ''node-0'') chainOfThree) =
     [\<lparr>node_id = ascii ''node-1'', position = \<lparr>x_of = 250, y_of = 200\<rparr>, label = ascii ''b''\<rparr>,
      \<lparr>node_id = ascii ''node-2'', position = \<lparr>x_of = 250, y_of = 350\<rparr>, label = ascii ''c''\<rparr>]"
  "edges (deleteNode (ascii ''node-0'') chainOfThree) =
     [\<lparr>edge_id = ascii ''edge-1-2'', source = ascii ''node-1'', target = ascii ''node-2''\<rparr>]"
  by (simp_all add: deleteNode_def chain_fields names_differ)

lemma chain_unfold:
  "elapse 1000 (callGenerateFlowFromSteps threeSteps False mountedComponent) = chainOfThree"
  by (simp add: chainOfThree_def)

lemma nodes_two:
  "stepNodes Editable False [ascii ''a'', ascii ''b''] =
     [\<lparr>node_id = ascii ''node-0'', position = \<lparr>x_of = 250, y_of = 50\<rparr>, label = ascii ''a''\<rparr>,
      \<lparr>node_id = ascii ''node-1'', position = \<lparr>x_of = 250, y_of = 200\<rparr>, label = ascii ''b''\<rparr>]"
  unfolding stepNodes_def processed_a_b
  by (simp add: stepNode_def sequentialPosition_def node_names)

lemma edges_two:
  "stepEdges Editable [ascii ''a'', ascii ''b''] =
     [\<lparr>edge_id = ascii ''edge-0-1'', source = ascii ''node-0'', target = ascii ''node-1''\<rparr>]"
  by (simp add: processed_a_b node_names linkEdge_def) (simp add: showNat_digit ascii_def)

lemma call_delete_quiet:
  "\<not> (2 \<le> length (nodes (deleteNode nodeId s)) \<and> edges (deleteNode nodeId s) = []) \<Longrightarrow>
     callDeleteNode nodeId s = deleteNode nodeId s"
  by (simp add: callDeleteNode_def effect_quiet)

lemma after_two_deletions:
  "run twoDeletions mountedComponent
     = (deleteNode (ascii ''node-2'') (deleteNode (ascii ''node-1'') chainOfThree))
         \<lparr>edges := [\<lparr>edge_id = ascii ''edge-auto-0-1'', source = ascii ''node-0'',
                     target = ascii ''node-2''\<rparr>],
          clock := 2100\<rparr>"
    (is "_ = ?r")
  and two_deletions_disturb: "\<not> undisturbed twoDeletions mountedComponent"
proof -
  let ?auto = "[\<lparr>edge_id = ascii ''edge-auto-0-1'', source = ascii ''node-0'',
                  target = ascii ''node-2''\<rparr>]"
  let ?t1 = "elapse 100 (callDeleteNode (ascii ''node-1'') chainOfThree)"
  have t1: "?t1 = (deleteNode (ascii ''node-1'') chainOfThree)
      \<lparr>clock := 1100, timers := [\<lparr>due = 1500, callback = RestoreEdges ?auto\<rparr>]\<rparr>"
    unfolding deletion_settles [OF chain_fields(1)]
    by (simp add: chain_without_middle restored_two chain_fields)
  let ?u = "deleteNode (ascii ''node-2'') ?t1"
  have n: "nodes ?u =
     [\<lparr>node_id = ascii ''node-0'', position = \<lparr>x_of = 250, y_of = 50\<rparr>, label = ascii ''a''\<rparr>]"
    and e: "edges ?u = []"
    and tm: "timers ?u = [\<lparr>due = 1500, callback = RestoreEdges ?auto\<rparr>]"
    and ck: "clock ?u = 1100"
    unfolding t1 by (simp_all add: deleteNode_def chain_fields names_differ)
  have c: "callDeleteNode (ascii ''node-2'') ?t1 = ?u"
    by (rule call_delete_quiet) (simp add: n)
  have "elapse 1000 ?u =
     (if 1500 \<le> clock ?u + 1000 then ?u\<lparr>edges := ?auto, clock := clock ?u + 1000, timers := []\<rparr>
      else ?u\<lparr>clock := clock ?u + 1000\<rparr>)"
    using tm by (rule elapse_restore) (simp_all add: ck)
  then have "elapse 1000 ?u = ?u\<lparr>edges := ?auto, clock := 2100, timers := []\<rparr>"
    by (simp add: ck)
  also have "\<dots> = ?r" unfolding t1 by (simp add: deleteNode_def chain_fields)
  finally have r: "elapse 1000 ?u = ?r" .
  have "run twoDeletions mountedComponent = elapse 1000 (callDeleteNode (ascii ''node-2'') ?t1)"
    by (simp add: twoDeletions_def chain_unfold)
  then show "run twoDeletions mountedComponent = ?r" by (simp only: c r)
  have "\<not> allowed (Delete (ascii ''node-2'')) ?t1" unfolding t1 by simp
  then show "\<not> undisturbed twoDeletions mountedComponent"
    by (simp add: twoDeletions_def chain_unfold)
qed

lemma after_early_deletion:
  "run earlyDeletion mountedComponent
     = (deleteNode (ascii ''node-1'')
          (mountedComponent\<lparr>nodes := stepNodes Editable False [ascii ''a'', ascii ''b''], edges := [],
              nextNodeId := 3\<rparr>))
         \<lparr>edges := stepEdges Editable [ascii ''a'', ascii ''b''], clock := 1100\<rparr>"
    (is "_ = ?r")
  and early_deletion_disturbs: "\<not> undisturbed earlyDeletion mountedComponent"
proof -
  let ?N = "stepNodes Editable False [ascii ''a'', ascii ''b'']"
  let ?E = "stepEdges Editable [ascii ''a'', ascii ''b'']"
  let ?RE = "restoredEdges (sortByPosition ?N)"
  let ?ts = "[\<lparr>due = 200, callback = SetEdges ?E\<rparr>, \<lparr>due = 500, callback = RestoreEdges ?RE\<rparr>]"
  let ?g = "callGenerateFlowFromSteps [ascii ''a'', ascii ''b''] False mountedComponent"
  have g: "?g = mountedComponent\<lparr>nodes := ?N, edges := [], nextNodeId := 3, timers := ?ts\<rparr>"
    by (simp add: generation_starts mounted_timers processed_a_b)
  have "fireDue 100 ?g = ?g" by (rule fireDue_stop) (simp add: g)
  then have w: "elapse 100 ?g = ?g\<lparr>clock := 100\<rparr>" by (simp add: elapse_def g mounted_timers)
  let ?d = "deleteNode (ascii ''node-1'') (?g\<lparr>clock := 100\<rparr>)"
  have n: "nodes ?d =
     [\<lparr>node_id = ascii ''node-0'', position = \<lparr>x_of = 250, y_of = 50\<rparr>, label = ascii ''a''\<rparr>]"
    unfolding g by (simp add: deleteNode_def nodes_two names_differ)
  have tm: "timers ?d = ?ts" and ck: "clock ?d = 100" by (simp_all add: deleteNode_def g)
  have c: "callDeleteNode (ascii ''node-1'') (?g\<lparr>clock := 100\<rparr>) = ?d"
    by (rule call_delete_quiet) (simp add: n)
  have ne: "?E \<noteq> []" by (simp only: edges_two) simp
  have "length ?RE = 1" by (simp add: length_restoredEdges length_sortByPosition nodes_two)
  then have nr: "?RE \<noteq> []" by auto
  have "fireDue (clock ?d + 1000) ?d = ?d\<lparr>edges := ?E, clock := 200 + 300, timers := []\<rparr>"
    using tm ne nr by (rule writes_land) (simp_all add: ck)
  then have "elapse 1000 ?d = ?d\<lparr>edges := ?E, clock := 1100, timers := []\<rparr>"
    by (simp add: elapse_def ck)
  also have "\<dots> = ?r" unfolding g by (simp add: deleteNode_def mounted_timers)
  finally have r: "elapse 1000 ?d = ?r" .
  have "run earlyDeletion mountedComponent
      = elapse 1000 (callDeleteNode (ascii ''node-1'') (elapse 100 ?g))"
    by (simp add: earlyDeletion_def)
  then show "run earlyDeletion mountedComponent = ?r" by (simp only: w c r)
  have "timers (?g\<lparr>clock := 100\<rparr>) = ?ts" by (simp add: g)
  then have "\<not> allowed (Delete (ascii ''node-1'')) (?g\<lparr>clock := 100\<rparr>)"
    unfolding allowed.simps edges_two by simp
  then show "\<not> undisturbed earlyDeletion mountedComponent"
    by (simp add: earlyDeletion_def w mounted_timers)
qed

lemma nodes_effect: "nodes (restoringEffect s) = nodes s"
  by (simp add: restoringEffect_def Let_def setTimeout_def)

lemma nodes_callback: "nodes (runCallback c s) = nodes s"
  by (cases c) (simp_all add: nodes_effect setTimeout_def)

lemma nodes_fire: "nodes (fire i s) = nodes s"
  by (simp add: fire_def nodes_callback)

lemma nodes_fireDue: "nodes (fireDue limit s) = nodes s"
proof (induction limit s rule: fireDue.induct)
  case (1 limit s)
  show ?case
  proof (cases "timers s \<noteq> [] \<and> due (timers s ! earliest (timers s)) \<le> limit")
    case True
    with 1 [OF True] show ?thesis by (simp add: fireDue_step nodes_fire)
  next
    case False
    then have "fireDue limit s = s" by (intro fireDue_stop) auto
    then show ?thesis by simp
  qed
qed

lemma nodes_elapse: "nodes (elapse d s) = nodes s"
  by (simp add: elapse_def nodes_fireDue)

lemma insertNode_column:
  assumes "sorted (map (\<lambda>n. y_of (position n)) bs)"
    and "\<forall>b \<in> set bs. y_of (position a) \<noteq> y_of (position b) \<longrightarrow>
           50 \<le> \<bar>y_of (position a) - y_of (position b)\<bar>"
  shows "sorted (map (\<lambda>n. y_of (position n)) (insertNode a bs))"
  using assms
proof (induction bs)
  case Nil
  show ?case by simp
next
  case (Cons b bs)
  from Cons.prems have s: "sorted (map (\<lambda>n. y_of (position n)) bs)"
    and le: "\<forall>c \<in> set bs. y_of (position b) \<le> y_of (position c)"
    and ab: "y_of (position a) \<noteq> y_of (position b) \<longrightarrow> 50 \<le> \<bar>y_of (position a) - y_of (position b)\<bar>"
    and r: "\<forall>b \<in> set bs. y_of (position a) \<noteq> y_of (position b) \<longrightarrow>
           50 \<le> \<bar>y_of (position a) - y_of (position b)\<bar>"
    by simp_all
  show ?case
  proof (cases "comparePositions a b < 0")
    case True
    with ab have "y_of (position a) \<le> y_of (position b)"
      by (auto simp: comparePositions_def Let_def split: if_splits)
    with True le s show ?thesis by auto
  next
    case False
    with ab have "y_of (position b) \<le> y_of (position a)"
      by (auto simp: comparePositions_def Let_def split: if_splits)
    with False le Cons.IH [OF s r] show ?thesis by (simp add: set_insertNode)
  qed
qed

lemma sortByPosition_column:
  assumes "\<forall>a \<in> set ns. \<forall>b \<in> set ns. y_of (position a) \<noteq> y_of (position b) \<longrightarrow>
             50 \<le> \<bar>y_of (position a) - y_of (position b)\<bar>"
  shows "sorted (map (\<lambda>n. y_of (position n)) (sortByPosition ns))"
proof -
  have "sorted (map (\<lambda>n. y_of (position n)) (foldl (\<lambda>sorted a. insertNode a sorted) acc ms))"
    if "sorted (map (\<lambda>n. y_of (position n)) acc)"
      and "\<forall>a \<in> set acc \<union> set ms. \<forall>b \<in> set acc \<union> set ms.
             y_of (position a) \<noteq> y_of (position b) \<longrightarrow> 50 \<le> \<bar>y_of (position a) - y_of (position b)\<bar>"
    for acc ms
    using that
  proof (induction ms arbitrary: acc)
    case Nil
    then show ?case by simp
  next
    case (Cons m ms)
    have "sorted (map (\<lambda>n. y_of (position n)) (insertNode m acc))"
      using Cons.prems by (intro insertNode_column) auto
    moreover have "set (insertNode m acc) \<union> set ms = set acc \<union> set (m # ms)"
      by (auto simp: set_insertNode)
    ultimately show ?case using Cons.IH [of "insertNode m acc"] Cons.prems(2) by simp
  qed
  from this [of "[]" ns] assms show ?thesis by (simp add: sortByPosition_def)
qed

lemma insertNode_row:
  assumes "sorted (map (\<lambda>n. x_of (position n)) bs)"
    and "\<forall>b \<in> set bs. \<bar>y_of (position a) - y_of (position b)\<bar> < 50"
  shows "sorted (map (\<lambda>n. x_of (position n)) (insertNode a bs))"
  using assms
proof (induction bs)
  case Nil
  show ?case by simp
next
  case (Cons b bs)
  from Cons.prems have s: "sorted (map (\<lambda>n. x_of (position n)) bs)"
    and le: "\<forall>c \<in> set bs. x_of (position b) \<le> x_of (position c)"
    and ab: "\<bar>y_of (position a) - y_of (position b)\<bar> < 50"
    and r: "\<forall>b \<in> set bs. \<bar>y_of (position a) - y_of (position b)\<bar> < 50"
    by simp_all
  from ab have c: "comparePositions a b = x_of (position a) - x_of (position b)"
    by (simp add: comparePositions_def)
  show ?case
  proof (cases "comparePositions a b < 0")
    case True
    with c le s show ?thesis by auto
  next
    case False
    with c le Cons.IH [OF s r] show ?thesis by (simp add: set_insertNode)
  qed
qed

lemma sortByPosition_row:
  assumes "\<forall>a \<in> set ns. \<forall>b \<in> set ns. \<bar>y_of (position a) - y_of (position b)\<bar> < 50"
  shows "sorted (map (\<lambda>n. x_of (position n)) (sortByPosition ns))"
proof -
  have "sorted (map (\<lambda>n. x_of (position n)) (foldl (\<lambda>sorted a. insertNode a sorted) acc ms))"
    if "sorted (map (\<lambda>n. x_of (position n)) acc)"
      and "\<forall>a \<in> set acc \<union> set ms. \<forall>b \<in> set acc \<union> set ms.
             \<bar>y_of (position a) - y_of (position b)\<bar> < 50"
    for acc ms
    using that
  proof (induction ms arbitrary: acc)
    case Nil
    then show ?case by simp
  next
    case (Cons m ms)
    have "sorted (map (\<lambda>n. x_of (position n)) (insertNode m acc))"
      using Cons.prems by (intro insertNode_row) auto
    moreover have "set (insertNode m acc) \<union> set ms = set acc \<union> set (m # ms)"
      by (auto simp: set_insertNode)
    ultimately show ?case using Cons.IH [of "insertNode m acc"] Cons.prems(2) by simp
  qed
  from this [of "[]" ns] assms show ?thesis by (simp add: sortByPosition_def)
qed

lemma restoredEdges_nth:
  "i < length ms - 1 \<Longrightarrow>
     source (restoredEdges ms ! i) = node_id (ms ! i)
     \<and> target (restoredEdges ms ! i) = node_id (ms ! (i + 1))"
  by (simp add: restoredEdges_def)

subsection \<open>Deleting a node\<close>

text \<open>
  C5, as the code has it. \<open>deleteNode\<close> writes a state in which exactly the nodes with
  the given id and exactly the edges whose source or target is that id are gone: what is
  left are the other nodes and the other edges, each as it was, in their old order and
  multiplicity, and no other part of the state changes. That is the diagram right after
  the call (\<open>callDeleteNode\<close>). In the component the render that follows runs the
  edge-restoring effect. When no deferred write was pending at the call, the nodes stay
  as the deletion left them, and so do the edges unless the deletion left at least two
  nodes and no edge: then, from 500 ms after the call, the edges are the links between
  the remaining nodes in the order of their positions. That order has every node once;
  it is the order of \<open>y\<close> for nodes whose \<open>y\<close> are equal or at least 50 apart, and the
  order of \<open>x\<close> for nodes whose \<open>y\<close> are all less than 50 apart; there is one link fewer
  than nodes, link \<open>i\<close> from node \<open>i\<close> of the order to node \<open>i + 1\<close>. Whatever is pending,
  no deferred write changes the node list.
\<close>

theorem deleteNode_removes_exactly:
  "(\<forall>n. n \<in> set (nodes (deleteNode nodeId s)) \<longleftrightarrow> n \<in> set (nodes s) \<and> node_id n \<noteq> nodeId)
   \<and> (\<forall>e. e \<in> set (edges (deleteNode nodeId s))
          \<longleftrightarrow> e \<in> set (edges s) \<and> source e \<noteq> nodeId \<and> target e \<noteq> nodeId)
   \<and> subseq (nodes (deleteNode nodeId s)) (nodes s)
   \<and> subseq (edges (deleteNode nodeId s)) (edges s)
   \<and> mset (nodes s) = mset (nodes (deleteNode nodeId s))
         + mset (filter (\<lambda>n. node_id n = nodeId) (nodes s))
   \<and> mset (edges s) = mset (edges (deleteNode nodeId s))
         + mset (filter (\<lambda>e. source e = nodeId \<or> target e = nodeId) (edges s))
   \<and> deleteNode nodeId s
         = s\<lparr>nodes := nodes (deleteNode nodeId s), edges := edges (deleteNode nodeId s)\<rparr>
   \<and> nodes (callDeleteNode nodeId c) = nodes (deleteNode nodeId c)
   \<and> edges (callDeleteNode nodeId c) = edges (deleteNode nodeId c)
   \<and> nodes (elapse d (callDeleteNode nodeId c)) = nodes (deleteNode nodeId c)
   \<and> (timers c = [] \<longrightarrow>
         edges (elapse d (callDeleteNode nodeId c))
           = (if 2 \<le> length (nodes (deleteNode nodeId c)) \<and> edges (deleteNode nodeId c) = []
                 \<and> 500 \<le> d
              then restoredEdges (sortByPosition (nodes (deleteNode nodeId c)))
              else edges (deleteNode nodeId c))
       \<and> (500 \<le> d \<longrightarrow> timers (elapse d (callDeleteNode nodeId c)) = []))
   \<and> mset (sortByPosition ns) = mset ns
   \<and> ((\<forall>a \<in> set ns. \<forall>b \<in> set ns. y_of (position a) \<noteq> y_of (position b) \<longrightarrow>
           50 \<le> \<bar>y_of (position a) - y_of (position b)\<bar>) \<longrightarrow>
        sorted (map (\<lambda>n. y_of (position n)) (sortByPosition ns)))
   \<and> ((\<forall>a \<in> set ns. \<forall>b \<in> set ns. \<bar>y_of (position a) - y_of (position b)\<bar> < 50) \<longrightarrow>
        sorted (map (\<lambda>n. x_of (position n)) (sortByPosition ns)))
   \<and> length (restoredEdges ns) = length ns - 1
   \<and> (\<forall>i. i < length ns - 1 \<longrightarrow>
         source (restoredEdges ns ! i) = node_id (ns ! i)
         \<and> target (restoredEdges ns ! i) = node_id (ns ! (i + 1)))"
proof -
  have f: "(\<forall>n. n \<in> set (nodes (deleteNode nodeId s)) \<longleftrightarrow> n \<in> set (nodes s) \<and> node_id n \<noteq> nodeId)
   \<and> (\<forall>e. e \<in> set (edges (deleteNode nodeId s))
          \<longleftrightarrow> e \<in> set (edges s) \<and> source e \<noteq> nodeId \<and> target e \<noteq> nodeId)
   \<and> subseq (nodes (deleteNode nodeId s)) (nodes s)
   \<and> subseq (edges (deleteNode nodeId s)) (edges s)
   \<and> mset (nodes s) = mset (nodes (deleteNode nodeId s))
         + mset (filter (\<lambda>n. node_id n = nodeId) (nodes s))
   \<and> mset (edges s) = mset (edges (deleteNode nodeId s))
         + mset (filter (\<lambda>e. source e = nodeId \<or> target e = nodeId) (edges s))
   \<and> deleteNode nodeId s
         = s\<lparr>nodes := nodes (deleteNode nodeId s), edges := edges (deleteNode nodeId s)\<rparr>"
    by (simp add: deleteNode_def)
  have n: "nodes (elapse d (callDeleteNode nodeId c)) = nodes (deleteNode nodeId c)"
    by (simp add: nodes_elapse call_delete_fields)
  have t: "timers c = [] \<longrightarrow>
         edges (elapse d (callDeleteNode nodeId c))
           = (if 2 \<le> length (nodes (deleteNode nodeId c)) \<and> edges (deleteNode nodeId c) = []
                 \<and> 500 \<le> d
              then restoredEdges (sortByPosition (nodes (deleteNode nodeId c)))
              else edges (deleteNode nodeId c))
       \<and> (500 \<le> d \<longrightarrow> timers (elapse d (callDeleteNode nodeId c)) = [])"
  proof
    assume q: "timers c = []"
    have "timers (deleteNode nodeId c) = []" using q by (simp add: deleteNode_def)
    then show "edges (elapse d (callDeleteNode nodeId c))
           = (if 2 \<le> length (nodes (deleteNode nodeId c)) \<and> edges (deleteNode nodeId c) = []
                 \<and> 500 \<le> d
              then restoredEdges (sortByPosition (nodes (deleteNode nodeId c)))
              else edges (deleteNode nodeId c))
       \<and> (500 \<le> d \<longrightarrow> timers (elapse d (callDeleteNode nodeId c)) = [])"
      unfolding deletion_settles [OF q] by simp
  qed
  have col: "(\<forall>a \<in> set ns. \<forall>b \<in> set ns. y_of (position a) \<noteq> y_of (position b) \<longrightarrow>
           50 \<le> \<bar>y_of (position a) - y_of (position b)\<bar>) \<longrightarrow>
        sorted (map (\<lambda>n. y_of (position n)) (sortByPosition ns))"
    using sortByPosition_column [of ns] by (intro impI)
  have row: "(\<forall>a \<in> set ns. \<forall>b \<in> set ns. \<bar>y_of (position a) - y_of (position b)\<bar> < 50) \<longrightarrow>
        sorted (map (\<lambda>n. x_of (position n)) (sortByPosition ns))"
    using sortByPosition_row [of ns] by (intro impI)
  have nth: "\<forall>i. i < length ns - 1 \<longrightarrow>
         source (restoredEdges ns ! i) = node_id (ns ! i)
         \<and> target (restoredEdges ns ! i) = node_id (ns ! (i + 1))"
    using restoredEdges_nth [of _ ns] by blast
  from f [THEN conjunct1] f [THEN conjunct2, THEN conjunct1]
    f [THEN conjunct2, THEN conjunct2, THEN conjunct1]
    f [THEN conjunct2, THEN conjunct2, THEN conjunct2, THEN conjunct1]
    f [THEN conjunct2, THEN conjunct2, THEN conjunct2, THEN conjunct2, THEN conjunct1]
    f [THEN conjunct2, THEN conjunct2, THEN conjunct2, THEN conjunct2, THEN conjunct2, THEN conjunct1]
    f [THEN conjunct2, THEN conjunct2, THEN conjunct2, THEN conjunct2, THEN conjunct2, THEN conjunct2]
    call_delete_fields [of nodeId c] n t mset_sortByPosition [of ns] col row
    length_restoredEdges [of ns] nth
  show ?thesis by (intro conjI)
qed

theorem deleteNode_removes_exactly_witness:
  "timers chainOfThree = []
   \<and> map node_id (nodes (elapse 1000 (callDeleteNode (ascii ''node-0'') chainOfThree)))
       = [ascii ''node-1'', ascii ''node-2'']
   \<and> edges (elapse 1000 (callDeleteNode (ascii ''node-0'') chainOfThree))
       = [\<lparr>edge_id = ascii ''edge-1-2'', source = ascii ''node-1'', target = ascii ''node-2''\<rparr>]
   \<and> timers (elapse 1000 (callDeleteNode (ascii ''node-0'') chainOfThree)) = []
   \<and> sorted (map (\<lambda>n. y_of (position n)) (sortByPosition (nodes chainOfThree)))
   \<and> sorted (map (\<lambda>n. x_of (position n))
        (sortByPosition
          [\<lparr>node_id = ascii ''node-1'', position = \<lparr>x_of = 360, y_of = 100\<rparr>, label = ascii ''b''\<rparr>,
           \<lparr>node_id = ascii ''node-0'', position = \<lparr>x_of = 100, y_of = 100\<rparr>, label = ascii ''a''\<rparr>]))
   \<and> source (restoredEdges (nodes chainOfThree) ! 1) = ascii ''node-1''
   \<and> target (restoredEdges (nodes chainOfThree) ! 1) = ascii ''node-2''"
proof -
  let ?row = "[\<lparr>node_id = ascii ''node-1'', position = \<lparr>x_of = 360, y_of = 100\<rparr>, label = ascii ''b''\<rparr>,
           \<lparr>node_id = ascii ''node-0'', position = \<lparr>x_of = 100, y_of = 100\<rparr>, label = ascii ''a''\<rparr>]"
  note T = deleteNode_removes_exactly
    [where nodeId = "ascii ''node-0''" and c = chainOfThree and d = 1000 and ns = "nodes chainOfThree"]
  note U = deleteNode_removes_exactly [where ns = ?row]
  have q: "timers chainOfThree = []" by (rule chain_fields)
  note H = T [THEN conjunct2, THEN conjunct2, THEN conjunct2, THEN conjunct2, THEN conjunct2,
      THEN conjunct2, THEN conjunct2, THEN conjunct2, THEN conjunct2, THEN conjunct2,
      THEN conjunct1, rule_format, OF q]
  have n: "map node_id (nodes (elapse 1000 (callDeleteNode (ascii ''node-0'') chainOfThree)))
       = [ascii ''node-1'', ascii ''node-2'']"
    using T [THEN conjunct2, THEN conjunct2, THEN conjunct2, THEN conjunct2, THEN conjunct2,
      THEN conjunct2, THEN conjunct2, THEN conjunct2, THEN conjunct2, THEN conjunct1]
    by (simp add: chain_without_first)
  have e: "edges (elapse 1000 (callDeleteNode (ascii ''node-0'') chainOfThree))
       = [\<lparr>edge_id = ascii ''edge-1-2'', source = ascii ''node-1'', target = ascii ''node-2''\<rparr>]"
    using H [THEN conjunct1] by (simp add: chain_without_first)
  have t: "timers (elapse 1000 (callDeleteNode (ascii ''node-0'') chainOfThree)) = []"
    using H [THEN conjunct2] by simp
  have hc: "\<forall>a \<in> set (nodes chainOfThree). \<forall>b \<in> set (nodes chainOfThree).
      y_of (position a) \<noteq> y_of (position b) \<longrightarrow> 50 \<le> \<bar>y_of (position a) - y_of (position b)\<bar>"
    by (simp add: chain_fields)
  have sc: "sorted (map (\<lambda>n. y_of (position n)) (sortByPosition (nodes chainOfThree)))"
    using T [THEN conjunct2, THEN conjunct2, THEN conjunct2, THEN conjunct2, THEN conjunct2,
      THEN conjunct2, THEN conjunct2, THEN conjunct2, THEN conjunct2, THEN conjunct2,
      THEN conjunct2, THEN conjunct2, THEN conjunct1, THEN mp, OF hc] .
  have hr: "\<forall>a \<in> set ?row. \<forall>b \<in> set ?row. \<bar>y_of (position a) - y_of (position b)\<bar> < 50"
    by simp
  have sr: "sorted (map (\<lambda>n. x_of (position n)) (sortByPosition ?row))"
    using U [THEN conjunct2, THEN conjunct2, THEN conjunct2, THEN conjunct2, THEN conjunct2,
      THEN conjunct2, THEN conjunct2, THEN conjunct2, THEN conjunct2, THEN conjunct2,
      THEN conjunct2, THEN conjunct2, THEN conjunct2, THEN conjunct1, THEN mp, OF hr] .
  have i: "1 < length (nodes chainOfThree) - 1" by (simp add: chain_fields)
  have k: "source (restoredEdges (nodes chainOfThree) ! 1) = ascii ''node-1''
      \<and> target (restoredEdges (nodes chainOfThree) ! 1) = ascii ''node-2''"
    using T [THEN conjunct2, THEN conjunct2, THEN conjunct2, THEN conjunct2, THEN conjunct2,
      THEN conjunct2, THEN conjunct2, THEN conjunct2, THEN conjunct2, THEN conjunct2,
      THEN conjunct2, THEN conjunct2, THEN conjunct2, THEN conjunct2, THEN conjunct2,
      rule_format, OF i]
    by (simp add: chain_fields)
  from q n e t sc sr k [THEN conjunct1] k [THEN conjunct2] show ?thesis by (intro conjI)
qed

text \<open>
  C5 as stated leaves all other edges unchanged. In a chain of three generated steps,
  all deferred writes landed, deleting the middle node removes both edges, and 500 ms
  later the component has linked the first node to the third: an edge that was not
  there before the deletion.
\<close>

theorem deleted_node_relinked_counterexample:
  "timers chainOfThree = []
   \<and> edges chainOfThree =
       [\<lparr>edge_id = ascii ''edge-0-1'', source = ascii ''node-0'', target = ascii ''node-1''\<rparr>,
        \<lparr>edge_id = ascii ''edge-1-2'', source = ascii ''node-1'', target = ascii ''node-2''\<rparr>]
   \<and> map node_id (nodes (elapse 1000 (callDeleteNode (ascii ''node-1'') chainOfThree)))
       = [ascii ''node-0'', ascii ''node-2'']
   \<and> edges (elapse 1000 (callDeleteNode (ascii ''node-1'') chainOfThree))
       = [\<lparr>edge_id = ascii ''edge-auto-0-1'', source = ascii ''node-0'', target = ascii ''node-2''\<rparr>]
   \<and> \<not> set (edges (elapse 1000 (callDeleteNode (ascii ''node-1'') chainOfThree)))
         \<subseteq> set (edges chainOfThree)"
proof -
  have q: "timers chainOfThree = []" by (rule chain_fields)
  have n: "map node_id (nodes (elapse 1000 (callDeleteNode (ascii ''node-1'') chainOfThree)))
       = [ascii ''node-0'', ascii ''node-2'']"
    unfolding deletion_settles [OF q] by (simp add: chain_without_middle)
  have e: "edges (elapse 1000 (callDeleteNode (ascii ''node-1'') chainOfThree))
       = [\<lparr>edge_id = ascii ''edge-auto-0-1'', source = ascii ''node-0'', target = ascii ''node-2''\<rparr>]"
    unfolding deletion_settles [OF q] by (simp add: chain_without_middle restored_two)
  have s: "\<not> set (edges (elapse 1000 (callDeleteNode (ascii ''node-1'') chainOfThree)))
         \<subseteq> set (edges chainOfThree)"
    unfolding e chain_fields by (simp add: names_differ)
  from q chain_fields(4) n e s show ?thesis by (intro conjI)
qed

subsection \<open>Edges refer to existing nodes, in time\<close>




subsection \<open>Short inputs\<close>

lemma matchLetters_length: "matchLetters p s = Some r \<Longrightarrow> length s = length p + length r"
  by (induction p s rule: matchLetters.induct) (auto split: if_splits)

lemma matchGraph_length:
  assumes "matchGraph dir s = Some r" and "length dir = 2"
  shows "8 \<le> length s"
proof -
  from assms(1) obtain r1 w ws where r1: "matchLetters (ascii ''graph'') s = Some r1"
    and w: "r1 = w # ws" and d: "matchLetters dir (dropWhile isWhiteSpace ws) = Some r"
    by (auto simp: matchGraph_def split: option.splits list.splits if_splits)
  from matchLetters_length [OF r1] have "length s = 5 + length r1" by (simp add: ascii_def)
  moreover from matchLetters_length [OF d] assms(2)
  have "2 \<le> length (dropWhile isWhiteSpace ws)" by simp
  then have "2 \<le> length ws" using length_dropWhile_le [of isWhiteSpace ws] by linarith
  ultimately show ?thesis using w by simp
qed

lemma removeFirstGraph_short:
  "length dir = 2 \<Longrightarrow> length s < 8 \<Longrightarrow> removeFirstGraph dir s = s"
proof (induction s)
  case Nil
  show ?case by simp
next
  case (Cons c cs)
  have "matchGraph dir (c # cs) = None"
  proof (cases "matchGraph dir (c # cs)")
    case (Some r)
    from matchGraph_length [OF Some Cons.prems(1)] Cons.prems(2) show ?thesis by simp
  qed simp
  with Cons show ?case by simp
qed

lemma trim_trimmed:
  assumes "s \<noteq> []" "\<not> isWhiteSpace (hd s)" "\<not> isWhiteSpace (last s)"
  shows "trim s = s"
proof -
  from assms(1,2) have a: "dropWhile isWhiteSpace s = s" by (cases s) simp_all
  from assms(1,3) have "dropWhile isWhiteSpace (rev s) = rev s"
    by (cases "rev s") (simp_all add: hd_rev [symmetric])
  with a show ?thesis by (simp add: trim_def)
qed

lemma trim_idem: "trim (trim s) = trim s"
proof (cases "trim s = []")
  case True
  have "trim [] = []" by (simp add: trim_def)
  with True show ?thesis by simp
next
  case False
  from False trim_ends [OF False] show ?thesis by (rule trim_trimmed)
qed

lemma cleanStep_short:
  assumes "length (trim t) < 5" "\<not> includesStr (trim t) fence"
  shows "cleanStep (trim t) = trim t"
  using assms by (simp add: cleanStep_def stripFences_id removeFirstGraph_short ascii_def trim_idem)


lemma processed_short:
  assumes "1 \<le> length (trim t)" "length (trim t) < 5" "\<not> includesStr (trim t) fence"
  shows "processedSteps [trim t] = [trim t]"
  using assms by (auto simp: processedSteps_def cleanStep_short)

lemma single_step_diagram:
  assumes "processedSteps steps = [l]"
  shows "nodes (generateFlowFromSteps v steps False s)
       = [\<lparr>node_id = ascii ''node-0'', position = \<lparr>x_of = 250, y_of = 50\<rparr>, label = l\<rparr>]"
    and "edges (generateFlowFromSteps v steps False s) = []"
  using assms
  by (simp_all add: generate_nodes generate_edges stepEdges_eq stepNodes_def stepNode_def
      sequentialPosition_def showNat_digit ascii_def)

lemma trim_hi: "trim (ascii '' hi '') = ascii ''hi''"
  by (simp add: trim_def ascii_def isWhiteSpace_def)

lemma trim_abc: "trim (ascii ''abc'') = ascii ''abc''"
  by (simp add: trim_def ascii_def isWhiteSpace_def)

lemma trim_fence: "trim (ascii ''```'') = ascii ''```''"
  by (simp add: trim_def ascii_def isWhiteSpace_def)





subsection \<open>The chat transcript\<close>

lemma chat_generate [simp]: "chatHistory (generateFlowFromSteps v steps h s) = chatHistory s"
  by (simp add: generate_frame)

lemma chat_complex [simp]: "chatHistory (generateComplexFlowchart structure s) = chatHistory s"
  by (simp add: generateComplexFlowchart_def Let_def)

lemma chat_rearrange [simp]: "chatHistory (rearrangeFlowchart v h s) = chatHistory s"
  by (cases v) (simp_all add: Let_def)

lemma chat_delete [simp]: "chatHistory (deleteNode nodeId s) = chatHistory s"
  by (simp add: deleteNode_def)

lemma chat_append [simp]:
  "chatHistory (appendMessage r c s) = chatHistory s @ [\<lparr>role = r, content = c\<rparr>]"
  by (simp add: appendMessage_def)

lemma chat_answeredEditable:
  "chatHistory (answeredEditable tests i t s) = chatHistory s @ [\<lparr>role = Assistant, content = t\<rparr>]"
  by (simp add: answeredEditable_def Let_def)

lemma chat_answeredSimple:
  "chatHistory (answeredSimple tests i t s) = chatHistory s @ [\<lparr>role = Assistant, content = t\<rparr>]"
  by (simp add: answeredSimple_def Let_def split: option.splits)

lemma chat_handleEditable:
  "chatHistory (handleSendMessageEditable tests reply s)
     = (if trim (chatInput s) = [] then chatHistory s
        else chatHistory s @ [\<lparr>role = User, content = chatInput s\<rparr>,
               \<lparr>role = Assistant,
                content = (case modelType s of
                             Gemini \<Rightarrow> geminiNotConfigured
                           | Ollama \<Rightarrow> (case reply of
                                          Failed \<Rightarrow> chatErrorOllama
                                        | Reply t \<Rightarrow> if t = [] then noAnswer else t))\<rparr>])"
  by (simp add: handleSendMessageEditable_def Let_def chat_answeredEditable
      split: modelType.splits reply.splits)

lemma chat_handleSimple:
  "chatHistory (handleSendMessageSimple tests reply s)
     = (if trim (chatInput s) = [] then chatHistory s
        else chatHistory s @ [\<lparr>role = User, content = chatInput s\<rparr>,
               \<lparr>role = Assistant,
                content =
                  (if length (nodes s) > 0
                      \<and> (verticalCommand tests (trim (chatInput s))
                         \<or> horizontalCommand tests (trim (chatInput s)))
                   then rearrangedMessage (horizontalCommand tests (trim (chatInput s)))
                   else (case modelType s of
                           Gemini \<Rightarrow> geminiNotConfigured
                         | Ollama \<Rightarrow> (case reply of
                                        Failed \<Rightarrow> chatErrorOllama
                                      | Reply t \<Rightarrow> if t = [] then noAnswer else t)))\<rparr>])"
  by (simp add: handleSendMessageSimple_def Let_def chat_answeredSimple
      split: modelType.splits reply.splits)

lemma chat_answeredSvg: "prefix (chatHistory s @ [\<lparr>role = Assistant, content = t\<rparr>]) (chatHistory (answeredSvg t s))"
  by (simp add: answeredSvg_def Let_def split: list.splits)

lemma chat_sendChatMessage:
  "trim (chatInput s) = [] \<and> chatHistory (sendChatMessage k reply s) = chatHistory s
   \<or> trim (chatInput s) \<noteq> [] \<and>
     prefix (chatHistory s @ [\<lparr>role = User, content = chatInput s\<rparr>])
       (chatHistory (sendChatMessage k reply s))"
proof (cases "trim (chatInput s) = []")
  case True
  then show ?thesis by (simp add: sendChatMessage_def)
next
  case False
  have "prefix (chatHistory s' @ [\<lparr>role = Assistant, content = t\<rparr>]) (chatHistory (answeredSvg t s'))"
    for s' :: svgApp and t by (rule chat_answeredSvg)
  then have a: "prefix (chatHistory s') (chatHistory (answeredSvg t s'))" for s' :: svgApp and t
    using append_prefixD by blast
  show ?thesis using False
    by (auto simp: sendChatMessage_def Let_def split: reply.splits intro: a [THEN prefix_order.trans [rotated]])
qed


lemma chat_fallbackEditable [simp]: "chatHistory (fallbackEditable s) = chatHistory s"
  by (simp add: fallbackEditable_def Let_def)

lemma chat_fallbackSimple [simp]: "chatHistory (fallbackSimple s) = chatHistory s"
  by (simp add: fallbackSimple_def Let_def)

lemma chat_fallbackSvg [simp]: "chatHistory (fallbackSvg s) = chatHistory s"
  by (simp add: fallbackSvg_def Let_def split: prod.splits)

lemma chat_generateFlowchart:
  "chatHistory (generateFlowchartEditable reply s) = chatHistory s"
  "chatHistory (generateFlowchartSimple reply s) = chatHistory s"
  "chatHistory (generateFlowchartSvg k reply t) = chatHistory t"
  by (simp_all add: generateFlowchartEditable_def generateFlowchartSimple_def
      generateFlowchartSvg_def Let_def split: reply.splits)

text \<open>
  C8. Sending a chat message appends to the chat history and changes nothing that was
  there: in the editable variant the new history is the old one followed by the user's
  message and one assistant message (the answer, a fixed text, or the error text), and in
  all three variants the old history is a prefix of the new one. Messages have the role
  \<open>User\<close> or \<open>Assistant\<close> by their type. Generating a flowchart from the input box and
  deleting a node leave the history as it is.
\<close>

theorem chat_history_append_only:
  "chatHistory (handleSendMessageEditable tests reply s)
     = (if trim (chatInput s) = [] then chatHistory s
        else chatHistory s @ [\<lparr>role = User, content = chatInput s\<rparr>,
               \<lparr>role = Assistant,
                content = (case modelType s of
                             Gemini \<Rightarrow> geminiNotConfigured
                           | Ollama \<Rightarrow> (case reply of
                                          Failed \<Rightarrow> chatErrorOllama
                                        | Reply r \<Rightarrow> if r = [] then noAnswer else r))\<rparr>])
   \<and> prefix (chatHistory s) (chatHistory (handleSendMessageEditable tests reply s))
   \<and> prefix (chatHistory s) (chatHistory (handleSendMessageSimple tests reply s))
   \<and> prefix (chatHistory t) (chatHistory (sendChatMessage hasApiKey reply t))
   \<and> chatHistory (generateFlowchartEditable reply s) = chatHistory s
   \<and> chatHistory (generateFlowchartSimple reply s) = chatHistory s
   \<and> chatHistory (generateFlowchartSvg hasApiKey reply t) = chatHistory t
   \<and> chatHistory (deleteNode nodeId s) = chatHistory s"
proof -
  have e: "prefix (chatHistory s) (chatHistory (handleSendMessageEditable tests reply s))"
    by (simp add: chat_handleEditable)
  have c: "prefix (chatHistory s) (chatHistory (handleSendMessageSimple tests reply s))"
    by (simp add: chat_handleSimple)
  have v: "prefix (chatHistory t) (chatHistory (sendChatMessage hasApiKey reply t))"
    using chat_sendChatMessage [of t hasApiKey reply] by (auto dest: append_prefixD)
  from e c v chat_handleEditable [of tests reply s] show ?thesis
    by (simp only: chat_generateFlowchart chat_delete simp_thms)
qed

subsection \<open>Step lines\<close>

lemma digit_not_space: "isDigit c \<Longrightarrow> \<not> isWhiteSpace c"
  by (auto simp: isDigit_def isWhiteSpace_def)

lemma terminator_is_space: "isLineTerminator c \<Longrightarrow> isWhiteSpace c"
  by (auto simp: isLineTerminator_def isWhiteSpace_def)

lemma matchLetters_append: "list_all2 ciLetter p w \<Longrightarrow> matchLetters p (w @ r) = Some r"
proof (induction p arbitrary: w)
  case Nil
  then show ?case by simp
next
  case (Cons a p)
  then obtain c cs where "w = c # cs" "ciLetter a c" "list_all2 ciLetter p cs"
    by (auto simp: list_all2_Cons1)
  with Cons.IH show ?case by simp
qed

lemma matchStepLine_pattern:
  assumes w: "list_all2 ciLetter stepWord w"
    and ws1: "ws1 \<noteq> []" "\<forall>c \<in> set ws1. isWhiteSpace c"
    and num: "num \<noteq> []" "\<forall>c \<in> set num. isDigit c"
    and ws2: "\<forall>c \<in> set ws2. isWhiteSpace c"
    and ws3: "\<forall>c \<in> set ws3. isWhiteSpace c"
    and tx: "txt \<noteq> []" "\<forall>c \<in> set txt. \<not> isLineTerminator c" "\<not> isWhiteSpace (last txt)"
  shows "matchStepLine (w @ ws1 @ num @ ws2 @ [58] @ ws3 @ txt)
       = Some (num, dropWhile isWhiteSpace txt)"
proof -
  let ?r5 = "ws3 @ txt"
  let ?r4 = "58 # ?r5"
  let ?r3 = "ws2 @ ?r4"
  let ?r2 = "num @ ?r3"
  let ?r1 = "ws1 @ ?r2"
  from num obtain d ds where d: "num = d # ds" "isDigit d" by (cases num) auto
  have m: "matchLetters stepWord (w @ ?r1) = Some ?r1" using w by (rule matchLetters_append)
  have t1: "takeWhile isWhiteSpace ?r1 = ws1" and d1: "dropWhile isWhiteSpace ?r1 = ?r2"
    using ws1(2) d by (simp_all add: takeWhile_append2 dropWhile_append2 digit_not_space)
  have nd: "\<not> isDigit (hd ?r3)"
  proof (cases ws2)
    case Nil
    then show ?thesis by (simp add: isDigit_def)
  next
    case (Cons a as)
    with ws2 have "isWhiteSpace a" by simp
    with digit_not_space [of a] Cons show ?thesis by auto
  qed
  have r3ne: "?r3 \<noteq> []" by simp
  have t2: "takeWhile isDigit ?r2 = num" and d2: "dropWhile isDigit ?r2 = ?r3"
    using num(2) nd r3ne
    by (simp_all only: takeWhile_append2 dropWhile_append2)
       (cases ?r3; simp)+
  have d3: "dropWhile isWhiteSpace ?r3 = ?r4"
    using ws2 by (simp add: dropWhile_append2 isWhiteSpace_def)
  have t5: "takeWhile isWhiteSpace ?r5 = ws3 @ takeWhile isWhiteSpace txt"
    and d5: "dropWhile isWhiteSpace ?r5 = dropWhile isWhiteSpace txt"
    using ws3 by (simp_all add: takeWhile_append2 dropWhile_append2)
  have rest: "dropWhile isWhiteSpace txt \<noteq> []"
    using tx(1,3) by (auto simp: dropWhile_eq_Nil_conv)
  have nolt: "\<not> list_ex isLineTerminator (dropWhile isWhiteSpace txt)"
    using tx(2) by (auto simp: list_ex_iff dest: set_dropWhileD)
  have "matchStepLine (w @ ?r1) = Some (num, dropWhile isWhiteSpace txt)"
    unfolding matchStepLine_def m
    using rest nolt
    by (simp only: option.case Let_def t1 d1 t2 d2 d3 d5 list.case) (simp add: ws1 num)
  then show ?thesis by simp
qed


lemma extract_mem:
  "line \<in> set lines \<Longrightarrow> matchStepLine line = Some (n, t) \<Longrightarrow> t \<noteq> []
     \<Longrightarrow> trim t \<in> set (extractStepLines lines)"
  by (induction lines) (auto split: option.splits)

lemma trim_dropWhile: "trim (dropWhile isWhiteSpace t) = trim t"
  by (simp add: trim_def)

lemma nodes_answeredEditable:
  "extractStepLines (responseLines t) \<noteq> [] \<Longrightarrow>
     nodes (answeredEditable tests i t s)
       = stepNodes Editable (horizontalCommand tests i \<or> horizontalCommand tests t)
           (extractStepLines (responseLines t))"
  by (simp add: answeredEditable_def Let_def generate_nodes)

lemmas class_defs = isWhiteSpace_def isDigit_def isLineTerminator_def ciLetter_def stepWord_def

lemma split_answer: "split 10 twoStepAnswer = [[1064, 1072, 1075, 32, 49, 58, 32, 97], [1064, 1072, 1075, 32, 50, 58, 32, 98]]"
  by (simp add: twoStepAnswer_def)

lemma trim_L1: "trim [1064, 1072, 1075, 32, 49, 58, 32, 97] = [1064, 1072, 1075, 32, 49, 58, 32, 97]"
  by (simp add: trim_def isWhiteSpace_def)

lemma trim_L2: "trim [1064, 1072, 1075, 32, 50, 58, 32, 98] = [1064, 1072, 1075, 32, 50, 58, 32, 98]"
  by (simp add: trim_def isWhiteSpace_def)

lemma lines_answer: "responseLines twoStepAnswer = [[1064, 1072, 1075, 32, 49, 58, 32, 97], [1064, 1072, 1075, 32, 50, 58, 32, 98]]"
  by (simp add: responseLines_def split_answer trim_L1 trim_L2)

lemma match_L1: "matchStepLine [1064, 1072, 1075, 32, 49, 58, 32, 97] = Some ([49], [97])"
  by (simp add: matchStepLine_def class_defs)

lemma match_L2: "matchStepLine [1064, 1072, 1075, 32, 50, 58, 32, 98] = Some ([50], [98])"
  by (simp add: matchStepLine_def class_defs)

lemma extract_answer: "extractStepLines (responseLines twoStepAnswer) = [[97], [98]]"
  by (simp add: lines_answer match_L1 match_L2) (simp add: trim_def isWhiteSpace_def)

lemma mention_L1: "matchMention ([1064, 1072, 1075, 32, 49, 58, 32, 97] @ r) = Some ([1064, 1072, 1075, 32, 49], [49])"
  by (simp add: matchMention_def Let_def class_defs)

lemma mention_L2: "matchMention ([1064, 1072, 1075, 32, 50, 58, 32, 98] @ r) = Some ([1064, 1072, 1075, 32, 50], [50])"
  by (simp add: matchMention_def Let_def class_defs)

lemma no_mention:
  "c \<noteq> 1096 \<Longrightarrow> c \<noteq> 1064 \<Longrightarrow> matchMention (c # cs) = None"
  by (simp add: matchMention_def class_defs)

lemma mentions_answer: "stepMentions twoStepAnswer = [([1064, 1072, 1075, 32, 49], [49]), ([1064, 1072, 1075, 32, 50], [50])]"
proof -
  have a: "twoStepAnswer = [1064, 1072, 1075, 32, 49, 58, 32, 97] @ 10 # [1064, 1072, 1075, 32, 50, 58, 32, 98] @ []"
    by (simp add: twoStepAnswer_def)
  have 1: "stepMentions ([1064, 1072, 1075, 32, 49, 58, 32, 97] @ 10 # [1064, 1072, 1075, 32, 50, 58, 32, 98] @ []) = ([1064, 1072, 1075, 32, 49], [49]) # stepMentions ([58, 32, 97] @ 10 # [1064, 1072, 1075, 32, 50, 58, 32, 98] @ [])"
    using mention_L1 [of "10 # [1064, 1072, 1075, 32, 50, 58, 32, 98] @ []"] by simp
  have 2: "stepMentions ([58, 32, 97] @ 10 # [1064, 1072, 1075, 32, 50, 58, 32, 98] @ []) = stepMentions ([1064, 1072, 1075, 32, 50, 58, 32, 98] @ [])"
    by (simp add: no_mention)
  have 3: "stepMentions ([1064, 1072, 1075, 32, 50, 58, 32, 98] @ []) = ([1064, 1072, 1075, 32, 50], [50]) # stepMentions [58, 32, 98]"
    using mention_L2 [of "[]"] by simp
  have 4: "stepMentions [58, 32, 98] = []"
    by (simp add: no_mention)
  show ?thesis unfolding a 1 2 3 4 ..
qed

lemma steps_answer: "stepsFromAnswer twoStepAnswer = Some [[1064, 1072, 1075, 32, 49], [1064, 1072, 1075, 32, 50]]"
  by (simp add: stepsFromAnswer_def Let_def mentions_answer split_answer trim_L1 trim_L2)

lemma noOrientationWord_simps:
  "verticalCommand noOrientationWord t = False" "horizontalCommand noOrientationWord t = False"
  "verticalWord noOrientationWord t = False" "horizontalWord noOrientationWord t = False"
  by (simp_all add: noOrientationWord_def)

lemma tea_mentions: "stepMentions (ascii ''tea'') = []" "\<not> ciIncludes (ascii ''tea'') stepWord"
  by (simp_all add: ascii_def no_mention class_defs)

lemma trim_tea: "trim (ascii ''tea'') = ascii ''tea''"
  by (simp add: trim_def ascii_def isWhiteSpace_def)

lemma clean_M: "cleanStep [1064, 1072, 1075, 32, 49] = [1064, 1072, 1075, 32, 49]" "cleanStep [1064, 1072, 1075, 32, 50] = [1064, 1072, 1075, 32, 50]"
  by (simp_all add: clean_eval)

lemma processed_M: "processedSteps [[1064, 1072, 1075, 32, 49], [1064, 1072, 1075, 32, 50]] = [[1064, 1072, 1075, 32, 49], [1064, 1072, 1075, 32, 50]]"
  by (simp add: processedSteps_def clean_M)

lemma trim_make_tea: "trim (ascii ''make tea'') = ascii ''make tea''"
  by (simp add: trim_def ascii_def isWhiteSpace_def)

text \<open>
  C1, for the editable variant. Let a line of the model's answer, trimmed, be the step
  word in any case, white space, a number, optional white space, a colon, optional white
  space and a non-empty text without line terminators. Then the trimmed text is one of
  the steps that the extraction yields, and these steps are what \<open>generateFlowchart\<close> (for
  an input of five or more characters) and \<open>handleSendMessage\<close> build the nodes from.
\<close>

theorem step_label_extracted:
  assumes raw: "raw \<in> set (split 10 responseText)"
    and line: "trim raw = w @ ws1 @ num @ ws2 @ [58] @ ws3 @ txt"
    and w: "list_all2 ciLetter stepWord w"
    and ws1: "ws1 \<noteq> []" "\<forall>c \<in> set ws1. isWhiteSpace c"
    and num: "num \<noteq> []" "\<forall>c \<in> set num. isDigit c"
    and ws2: "\<forall>c \<in> set ws2. isWhiteSpace c"
    and ws3: "\<forall>c \<in> set ws3. isWhiteSpace c"
    and tx: "txt \<noteq> []" "\<forall>c \<in> set txt. \<not> isLineTerminator c"
  shows "trim txt \<in> set (extractStepLines (responseLines responseText))
       \<and> (5 \<le> length (trim (input s)) \<longrightarrow>
            nodes (generateFlowchartEditable (Reply responseText) s)
              = stepNodes Editable (dashHorizontal (input s))
                  (extractStepLines (responseLines responseText)))
       \<and> (trim (chatInput s) \<noteq> [] \<and> modelType s = Ollama \<longrightarrow>
            nodes (handleSendMessageEditable tests (Reply responseText) s)
              = stepNodes Editable
                  (horizontalCommand tests (chatInput s) \<or> horizontalCommand tests responseText)
                  (extractStepLines (responseLines responseText)))"
proof -
  have ne: "trim raw \<noteq> []" by (simp add: line)
  have "last (trim raw) = last txt" using tx(1) by (simp add: line)
  with trim_ends(2) [OF ne] have l: "\<not> isWhiteSpace (last txt)" by simp
  have m: "matchStepLine (trim raw) = Some (num, dropWhile isWhiteSpace txt)"
    unfolding line using w ws1 num ws2 ws3 tx l by (rule matchStepLine_pattern)
  have r: "dropWhile isWhiteSpace txt \<noteq> []"
    using tx(1) l by (auto simp: dropWhile_eq_Nil_conv)
  have "trim raw \<in> set (responseLines responseText)"
    using raw ne by (simp add: responseLines_def)
  from extract_mem [OF this m r]
  have step: "trim txt \<in> set (extractStepLines (responseLines responseText))"
    by (simp add: trim_dropWhile)
  then have some: "extractStepLines (responseLines responseText) \<noteq> []" by auto
  have rne: "responseText \<noteq> []"
  proof
    assume "responseText = []"
    with raw have "raw = []" by simp
    then have "trim raw = []" by (simp add: trim_def)
    with ne show False by simp
  qed
  have g: "nodes (generateFlowchartEditable (Reply responseText) s)
      = stepNodes Editable (dashHorizontal (input s)) (extractStepLines (responseLines responseText))"
    if "5 \<le> length (trim (input s))"
  proof -
    from that have "trim (input s) \<noteq> []" "\<not> length (trim (input s)) < 5" by auto
    with some rne show ?thesis
      by (simp add: generateFlowchartEditable_def Let_def generate_nodes)
  qed
  have c: "nodes (handleSendMessageEditable tests (Reply responseText) s)
      = stepNodes Editable
          (horizontalCommand tests (chatInput s) \<or> horizontalCommand tests responseText)
          (extractStepLines (responseLines responseText))"
    if "trim (chatInput s) \<noteq> [] \<and> modelType s = Ollama"
    using that rne some
    by (simp add: handleSendMessageEditable_def Let_def nodes_answeredEditable)
  from step g c show ?thesis by blast
qed


theorem step_label_extracted_witness:
  "[1064, 1072, 1075, 32, 49, 58, 32, 97] \<in> set (split 10 twoStepAnswer)
   \<and> trim [1064, 1072, 1075, 32, 49, 58, 32, 97] = [1064, 1072, 1075] @ [32] @ [49] @ [] @ [58] @ [32] @ [97]
   \<and> list_all2 ciLetter stepWord [1064, 1072, 1075]
   \<and> trim [97] \<in> set (extractStepLines (responseLines twoStepAnswer))
   \<and> 5 \<le> length (trim (input (initialApp\<lparr>input := ascii ''make tea''\<rparr>)))
   \<and> nodes (generateFlowchartEditable (Reply twoStepAnswer) (initialApp\<lparr>input := ascii ''make tea''\<rparr>))
       = stepNodes Editable (dashHorizontal (input (initialApp\<lparr>input := ascii ''make tea''\<rparr>)))
           (extractStepLines (responseLines twoStepAnswer))"
proof -
  have h1: "[1064, 1072, 1075, 32, 49, 58, 32, 97] \<in> set (split 10 twoStepAnswer)"
    by (simp add: split_answer)
  have h2: "trim [1064, 1072, 1075, 32, 49, 58, 32, 97] = [1064, 1072, 1075] @ [32] @ [49] @ [] @ [58] @ [32] @ [97]"
    by (simp add: trim_L1)
  have h3: "list_all2 ciLetter stepWord [1064, 1072, 1075]"
    by (simp add: class_defs)
  have h4: "[32] \<noteq> []" "\<forall>c \<in> set [32]. isWhiteSpace c" "[49] \<noteq> []" "\<forall>c \<in> set [49]. isDigit c"
    "\<forall>c \<in> set []. isWhiteSpace c" "[97] \<noteq> []" "\<forall>c \<in> set [97]. \<not> isLineTerminator c"
    by (simp_all add: class_defs)
  have h5: "5 \<le> length (trim (input (initialApp\<lparr>input := ascii ''make tea''\<rparr>)))"
    by (simp add: trim_make_tea) (simp add: ascii_def)
  note T = step_label_extracted [OF h1 h2 h3 h4(1,2,3,4,5,2,6,7),
      of "initialApp\<lparr>input := ascii ''make tea''\<rparr>" noOrientationWord]
  from h1 h2 h3 T [THEN conjunct1] h5 T [THEN conjunct2, THEN conjunct1, rule_format, OF h5]
  show ?thesis by (intro conjI)
qed

text \<open>
  C1 as stated speaks of the step extraction of the repository. The chat of the
  simplified variant, given the same two step lines as the answer to a message that
  mentions no step, labels the nodes with the step word and number, not with the text
  after the colon.
\<close>

theorem simple_chat_labels_counterexample:
  "[1064, 1072, 1075, 32, 49, 58, 32, 97] \<in> set (split 10 twoStepAnswer)
   \<and> matchStepLine (trim [1064, 1072, 1075, 32, 49, 58, 32, 97]) = Some ([49], [97])
   \<and> map label (nodes (handleSendMessageSimple noOrientationWord (Reply twoStepAnswer)
                         (initialApp\<lparr>chatInput := ascii ''tea''\<rparr>)))
       = [[1064, 1072, 1075, 32, 49], [1064, 1072, 1075, 32, 50]]
   \<and> trim [97] \<notin> set (map label (nodes (handleSendMessageSimple noOrientationWord (Reply twoStepAnswer)
                         (initialApp\<lparr>chatInput := ascii ''tea''\<rparr>))))"
proof -
  have ne: "ascii ''tea'' \<noteq> []" "twoStepAnswer \<noteq> []"
    by (simp_all add: ascii_def twoStepAnswer_def)
  have a: "nodes (answeredSimple noOrientationWord (ascii ''tea'') twoStepAnswer s)
      = stepNodes Simple False [[1064, 1072, 1075, 32, 49], [1064, 1072, 1075, 32, 50]]" for s
    by (simp add: answeredSimple_def Let_def tea_mentions steps_answer noOrientationWord_simps
        generate_nodes)
  have n: "nodes (handleSendMessageSimple noOrientationWord (Reply twoStepAnswer)
                         (initialApp\<lparr>chatInput := ascii ''tea''\<rparr>))
      = stepNodes Simple False [[1064, 1072, 1075, 32, 49], [1064, 1072, 1075, 32, 50]]"
    using ne
    by (simp add: handleSendMessageSimple_def Let_def trim_tea a noOrientationWord_simps
        initialApp_def)
  have l: "map label (nodes (handleSendMessageSimple noOrientationWord (Reply twoStepAnswer)
                         (initialApp\<lparr>chatInput := ascii ''tea''\<rparr>))) = [[1064, 1072, 1075, 32, 49], [1064, 1072, 1075, 32, 50]]"
    by (simp only: n label_stepNodes processed_M)
  show ?thesis
    unfolding l by (simp add: split_answer trim_L1 match_L1) (simp add: trim_def isWhiteSpace_def)
qed



subsection \<open>The fallback splitter\<close>

lemma fallbackStepsSvg_order:
  "fallbackStepsSvg inp =
     (if includesChar inp 45 \<and> length (splitTrim 45 inp) > 1 then (splitTrim 45 inp, True)
      else
        (let steps =
               (if includesChar inp 46 then splitTrim 46 inp
                else if includesChar inp 10 then splitTrim 10 inp
                else if includesChar inp 44 then splitTrim 44 inp
                else if includesChar inp 45 then splitTrim 45 inp
                else [])
         in (if steps = [] then [trim inp] else steps, False)))"
proof -
  define d where "d = splitTrim 45 inp"
  define p where "p = splitTrim 46 inp"
  define n where "n = splitTrim 10 inp"
  define c where "c = splitTrim 44 inp"
  define i45 where "i45 = includesChar inp 45"
  define i46 where "i46 = includesChar inp 46"
  define i10 where "i10 = includesChar inp 10"
  define i44 where "i44 = includesChar inp 44"
  show ?thesis
    unfolding fallbackStepsSvg_def d_def [symmetric] p_def [symmetric] n_def [symmetric]
      c_def [symmetric] i45_def [symmetric] i46_def [symmetric] i10_def [symmetric]
      i44_def [symmetric]
    by (auto simp: Let_def)
qed

lemma fallbackStepsSvg_nonempty: "fst (fallbackStepsSvg inp) \<noteq> []"
  unfolding fallbackStepsSvg_order by (auto simp: Let_def)


lemma fallbackSvg_cascade:
  "fallbackSvg s =
     (if (includesChar (input s) 45 \<or> includesChar (input s) 124)
         \<and> concat (map structureEntry (split 10 (input s))) \<noteq> []
      then s\<lparr>diagram := Structured (concat (map structureEntry (split 10 (input s)))),
             error := customStructureNote, loading := False\<rparr>
      else if includesChar (input s) 45 \<and> length (splitTrim 45 (input s)) > 1
      then s\<lparr>diagram := Sequential (splitTrim 45 (input s)) True, error := noteInternet\<rparr>
      else s\<lparr>diagram :=
               Sequential
                 (let steps =
                        (if includesChar (input s) 46 then splitTrim 46 (input s)
                         else if includesChar (input s) 10 then splitTrim 10 (input s)
                         else if includesChar (input s) 44 then splitTrim 44 (input s)
                         else if includesChar (input s) 45 then splitTrim 45 (input s)
                         else [])
                  in if steps = [] then [trim (input s)] else steps)
                 False,
             error := noteInternet\<rparr>)"
proof -
  let ?special = "(includesChar (input s) 45 \<or> includesChar (input s) 124)
         \<and> concat (map structureEntry (split 10 (input s))) \<noteq> []"
  let ?dashes = "includesChar (input s) 45 \<and> length (splitTrim 45 (input s)) > 1"
  let ?steps = "(if includesChar (input s) 46 then splitTrim 46 (input s)
                         else if includesChar (input s) 10 then splitTrim 10 (input s)
                         else if includesChar (input s) 44 then splitTrim 44 (input s)
                         else if includesChar (input s) 45 then splitTrim 45 (input s)
                         else [])"
  have a: "fallbackSvg s = s\<lparr>diagram := Structured (concat (map structureEntry (split 10 (input s)))),
             error := customStructureNote, loading := False\<rparr>" if ?special
    using that unfolding fallbackSvg_def by (simp add: Let_def split del: if_split)
  have core: "(case fallbackStepsSvg (input s) of
              (fallbackSteps, isHorizontal) \<Rightarrow>
                if length fallbackSteps > 0
                then s\<lparr>diagram := Sequential fallbackSteps isHorizontal, error := noteInternet\<rparr>
                else s\<lparr>error := failedToProcess\<rparr>)
      = s\<lparr>diagram := Sequential (fst (fallbackStepsSvg (input s))) (snd (fallbackStepsSvg (input s))),
           error := noteInternet\<rparr>"
    using fallbackStepsSvg_nonempty [of "input s"] by (cases "fallbackStepsSvg (input s)") simp
  have b: "fallbackSvg s
      = s\<lparr>diagram := Sequential (fst (fallbackStepsSvg (input s))) (snd (fallbackStepsSvg (input s))),
           error := noteInternet\<rparr>" if "\<not> ?special"
  proof -
    from that have cond: "((includesChar (input s) 45 \<or> includesChar (input s) 124)
        \<and> length (if includesChar (input s) 45 \<or> includesChar (input s) 124
                   then concat (map structureEntry (split 10 (input s))) else []) > 0) = False"
      by auto
    show ?thesis unfolding fallbackSvg_def Let_def cond if_False core ..
  qed
  have c: "fallbackStepsSvg (input s) = (splitTrim 45 (input s), True)" if ?dashes
    unfolding fallbackStepsSvg_order by (rule if_P [OF that])
  have d: "fallbackStepsSvg (input s) = (if ?steps = [] then [trim (input s)] else ?steps, False)"
    if "\<not> ?dashes"
    unfolding fallbackStepsSvg_order Let_def by (rule if_not_P [OF that])
  show ?thesis
  proof (cases ?special)
    case True
    show ?thesis unfolding if_P [OF True] by (rule a [OF True])
  next
    case False
    note ns = this
    show ?thesis
    proof (cases ?dashes)
      case True
      show ?thesis unfolding if_not_P [OF ns] if_P [OF True]
        by (simp only: b [OF ns] c [OF True] fst_conv snd_conv)
    next
      case False
      show ?thesis unfolding if_not_P [OF ns] if_not_P [OF False]
        by (simp only: b [OF ns] d [OF False] fst_conv snd_conv Let_def)
    qed
  qed
qed

subsection \<open>The fallback on an input with a period and a newline\<close>

lemma ex_split_newline: "split 10 (ascii ''a.b\<newline>c'') = [ascii ''a.b'', ascii ''c'']"
  by (simp add: ascii_def)

lemma ex_splitTrim_newline: "splitTrim 10 (ascii ''a.b\<newline>c'') = [ascii ''a.b'', ascii ''c'']"
  by (simp add: splitTrim_def ex_split_newline) (simp add: ascii_def trim_def isWhiteSpace_def)

lemma ex_splitTrim_period: "splitTrim 46 (ascii ''a.b\<newline>c'') = [ascii ''a'', ascii ''b\<newline>c'']"
  by (simp add: splitTrim_def ascii_def trim_def isWhiteSpace_def)

lemma ex_includes:
  "includesChar (ascii ''a.b\<newline>c'') 10" "includesChar (ascii ''a.b\<newline>c'') 46"
  "\<not> includesChar (ascii ''a.b\<newline>c'') 45" "\<not> includesChar (ascii ''a.b\<newline>c'') 124"
  "\<not> includesChar (ascii ''a.b\<newline>c'') 8226" "\<not> includesChar (ascii ''a.b\<newline>c'') 42"
  "\<not> includesChar (ascii ''a.b\<newline>c'') 8594" "\<not> includesStr (ascii ''a.b\<newline>c'') [45, 62]"
  by (simp_all add: includesChar_def ascii_def)

lemma ex_trim: "trim (ascii ''a.b\<newline>c'') = ascii ''a.b\<newline>c''"
  by (simp add: trim_def ascii_def isWhiteSpace_def)

lemma ex_length: "length (ascii ''a.b\<newline>c'') = 5" "ascii ''a.b\<newline>c'' \<noteq> []"
  by (simp_all add: ascii_def)

lemma ex_spec: "specFallbackSteps (ascii ''a.b\<newline>c'') = [ascii ''a.b'', ascii ''c'']"
  by (simp add: specFallbackSteps_def ex_splitTrim_newline)

lemma ex_clean: "cleanStep (ascii ''a.b\<newline>c'') = ascii ''a.b\<newline>c''"
  by (simp add: clean_eval)

lemma ex_processed: "processedSteps [ascii ''a.b\<newline>c''] = [ascii ''a.b\<newline>c'']"
  by (simp add: processedSteps_def ex_clean ex_length)

lemma ex_svg:
  assumes "input s = ascii ''a.b\<newline>c''"
  shows "fallbackSvg s
     = s\<lparr>diagram := Sequential [ascii ''a'', ascii ''b\<newline>c''] False, error := noteInternet\<rparr>"
  unfolding fallbackSvg_cascade assms
  by (simp add: ex_includes ex_splitTrim_period)

lemma ex_simple_steps:
  assumes "input s = ascii ''a.b\<newline>c''"
  shows "fallbackSimple s
     = (generateFlowFromSteps Simple [ascii ''a.b\<newline>c''] False s)\<lparr>error := noteInternet\<rparr>"
proof -
  have n: "filter (\<lambda>line. numberedPattern (trim line)) (split 10 (ascii ''a.b\<newline>c'')) = []"
    by (simp add: ex_split_newline) (simp add: numberedPattern_def ascii_def trim_def isWhiteSpace_def isDigit_def)
  have se: "trimmedPieces (splitSentences (ascii ''a.b\<newline>c'')) = [ascii ''a.b\<newline>c'']"
    by (simp add: trimmedPieces_def ascii_def isWhiteSpace_def trim_def)
  have ci: "\<not> ciIncludes (ascii ''a.b\<newline>c'') (ascii ''if'')"
    by (simp add: ascii_def ciLetter_def)
  show ?thesis
    unfolding fallbackSimple_def assms
    by (simp add: Let_def n se ci ex_includes split del: if_split)
qed

lemma ex_editable_steps:
  assumes "input s = ascii ''a.b\<newline>c''"
  shows "fallbackEditable s
     = (generateFlowFromSteps Editable [ascii ''a.b\<newline>c''] False s)\<lparr>error := unableToProcess\<rparr>"
proof -
  have "filter (\<lambda>line. length line > 3) (map trim (splitOn fallbackSeparator (ascii ''a.b\<newline>c''))) = []"
    by (simp add: ascii_def fallbackSeparator_def trim_def isWhiteSpace_def)
  then show ?thesis
    unfolding fallbackEditable_def assms by (simp add: Let_def ex_trim split del: if_split)
qed

text \<open>
  C2, as the code has it, for the variant that draws vector graphics (the one whose
  fallback is a chain of single splits). When the request fails, the input is handled in
  this order: if it contains \<open>-\<close> or \<open>|\<close> and its lines give a structure, that structure
  is drawn; else the dash split, if the input contains a dash and the split yields more
  than one step (drawn horizontally); else the split at the first separator among
  period, newline and comma that occurs in the input (the dash split with its single
  step when none occurs); and the whole trimmed input is the single step when the chosen
  split yields nothing.
\<close>

theorem svg_fallback_order:
  "fallbackSvg s =
     (if (includesChar (input s) 45 \<or> includesChar (input s) 124)
         \<and> concat (map structureEntry (split 10 (input s))) \<noteq> []
      then s\<lparr>diagram := Structured (concat (map structureEntry (split 10 (input s)))),
             error := customStructureNote, loading := False\<rparr>
      else if includesChar (input s) 45 \<and> length (splitTrim 45 (input s)) > 1
      then s\<lparr>diagram := Sequential (splitTrim 45 (input s)) True, error := noteInternet\<rparr>
      else s\<lparr>diagram :=
               Sequential
                 (let steps =
                        (if includesChar (input s) 46 then splitTrim 46 (input s)
                         else if includesChar (input s) 10 then splitTrim 10 (input s)
                         else if includesChar (input s) 44 then splitTrim 44 (input s)
                         else if includesChar (input s) 45 then splitTrim 45 (input s)
                         else [])
                  in if steps = [] then [trim (input s)] else steps)
                 False,
             error := noteInternet\<rparr>)
   \<and> (5 \<le> length (trim (input s)) \<and> modelType s = Ollama \<longrightarrow>
        generateFlowchartSvg hasApiKey Failed s
          = (fallbackSvg (s\<lparr>loading := True, error := [], fetches := fetches s + 1\<rparr>))
              \<lparr>loading := False\<rparr>)"
proof
  show "fallbackSvg s =
     (if (includesChar (input s) 45 \<or> includesChar (input s) 124)
         \<and> concat (map structureEntry (split 10 (input s))) \<noteq> []
      then s\<lparr>diagram := Structured (concat (map structureEntry (split 10 (input s)))),
             error := customStructureNote, loading := False\<rparr>
      else if includesChar (input s) 45 \<and> length (splitTrim 45 (input s)) > 1
      then s\<lparr>diagram := Sequential (splitTrim 45 (input s)) True, error := noteInternet\<rparr>
      else s\<lparr>diagram :=
               Sequential
                 (let steps =
                        (if includesChar (input s) 46 then splitTrim 46 (input s)
                         else if includesChar (input s) 10 then splitTrim 10 (input s)
                         else if includesChar (input s) 44 then splitTrim 44 (input s)
                         else if includesChar (input s) 45 then splitTrim 45 (input s)
                         else [])
                  in if steps = [] then [trim (input s)] else steps)
                 False,
             error := noteInternet\<rparr>)"
    by (rule fallbackSvg_cascade)
  show "5 \<le> length (trim (input s)) \<and> modelType s = Ollama \<longrightarrow>
        generateFlowchartSvg hasApiKey Failed s
          = (fallbackSvg (s\<lparr>loading := True, error := [], fetches := fetches s + 1\<rparr>))
              \<lparr>loading := False\<rparr>"
  proof
    assume h: "5 \<le> length (trim (input s)) \<and> modelType s = Ollama"
    then have "trim (input s) \<noteq> []" "\<not> length (trim (input s)) < 5" by auto
    with h show "generateFlowchartSvg hasApiKey Failed s
          = (fallbackSvg (s\<lparr>loading := True, error := [], fetches := fetches s + 1\<rparr>))
              \<lparr>loading := False\<rparr>"
      unfolding generateFlowchartSvg_def by (simp add: Let_def split del: if_split)
  qed
qed


theorem svg_fallback_order_witness:
  "5 \<le> length (trim (input (initialSvgApp\<lparr>input := ascii ''a.b\<newline>c''\<rparr>)))
   \<and> modelType (initialSvgApp\<lparr>input := ascii ''a.b\<newline>c''\<rparr>) = Ollama
   \<and> generateFlowchartSvg False Failed (initialSvgApp\<lparr>input := ascii ''a.b\<newline>c''\<rparr>)
       = (fallbackSvg (initialSvgApp\<lparr>input := ascii ''a.b\<newline>c'', loading := True, error := [],
                        fetches := fetches (initialSvgApp\<lparr>input := ascii ''a.b\<newline>c''\<rparr>) + 1\<rparr>))
           \<lparr>loading := False\<rparr>"
proof -
  have h: "5 \<le> length (trim (input (initialSvgApp\<lparr>input := ascii ''a.b\<newline>c''\<rparr>)))
      \<and> modelType (initialSvgApp\<lparr>input := ascii ''a.b\<newline>c''\<rparr>) = Ollama"
    by (simp add: ex_trim ex_length initialSvgApp_def)
  from svg_fallback_order [of "initialSvgApp\<lparr>input := ascii ''a.b\<newline>c''\<rparr>" False,
      THEN conjunct2, rule_format, OF h] h
  show ?thesis by simp
qed

text \<open>
  C2 as stated tries the newline split first. The input of two lines \<open>a.b\<close> and \<open>c\<close>
  contains a newline, and the newline split yields two steps; the variant that draws
  vector graphics splits it at the period instead, and the other two variants make one
  step of the whole input.
\<close>

theorem fallback_order_counterexample:
  "includesChar (ascii ''a.b\<newline>c'') 10
   \<and> splitTrim 10 (ascii ''a.b\<newline>c'') = [ascii ''a.b'', ascii ''c'']
   \<and> specFallbackSteps (ascii ''a.b\<newline>c'') = [ascii ''a.b'', ascii ''c'']
   \<and> diagram (generateFlowchartSvg False Failed (initialSvgApp\<lparr>input := ascii ''a.b\<newline>c''\<rparr>))
       = Sequential [ascii ''a'', ascii ''b\<newline>c''] False
   \<and> map label (nodes (generateFlowchartSimple Failed (initialApp\<lparr>input := ascii ''a.b\<newline>c''\<rparr>)))
       = [ascii ''a.b\<newline>c'']
   \<and> map label (nodes (generateFlowchartEditable Failed (initialApp\<lparr>input := ascii ''a.b\<newline>c''\<rparr>)))
       = [ascii ''a.b\<newline>c'']"
proof -
  have v: "diagram (generateFlowchartSvg False Failed (initialSvgApp\<lparr>input := ascii ''a.b\<newline>c''\<rparr>))
       = Sequential [ascii ''a'', ascii ''b\<newline>c''] False"
    unfolding generateFlowchartSvg_def
    by (simp add: Let_def ex_trim ex_length ex_svg initialSvgApp_def split del: if_split)
  have c: "map label (nodes (generateFlowchartSimple Failed (initialApp\<lparr>input := ascii ''a.b\<newline>c''\<rparr>)))
       = [ascii ''a.b\<newline>c'']"
    unfolding generateFlowchartSimple_def
    by (simp add: Let_def ex_trim ex_length ex_simple_steps generate_nodes label_stepNodes
        ex_processed split del: if_split)
  have e: "map label (nodes (generateFlowchartEditable Failed (initialApp\<lparr>input := ascii ''a.b\<newline>c''\<rparr>)))
       = [ascii ''a.b\<newline>c'']"
    unfolding generateFlowchartEditable_def
    by (simp add: Let_def ex_trim ex_length ex_editable_steps generate_nodes label_stepNodes
        ex_processed split del: if_split)
  from ex_includes(1) ex_splitTrim_newline ex_spec v c e show ?thesis by (intro conjI)
qed

subsection \<open>What a generation clears\<close>

lemma sorry_lines: "responseLines (ascii ''Sorry'') = [ascii ''Sorry'']"
  by (simp add: responseLines_def ascii_def trim_def isWhiteSpace_def)

lemma sorry_match: "matchStepLine (ascii ''Sorry'') = None"
  by (simp add: matchStepLine_def ascii_def class_defs)



end
